theory Spec2Isabelle
  imports Main "HOL-Library.Word"
begin

section \<open>The MQTT adapter of refactor/adapters/mqtt/mqtt.go\<close>

text \<open>
  The adapter sends one packet to several recipients over a publish/subscribe
  transport (\<open>Send\<close>) and hands inbound requests to one consumer (\<open>Next\<close>,
  \<open>NextRegistration\<close>). Its state is made of Go channels, a wait group and one
  goroutine pair per recipient. The embedding has three layers: Go channels as
  values, the inbound funnel as functions on the adapter record, and \<open>Send\<close> as
  a transition system whose actions are the steps of the main goroutine, of the
  per-recipient goroutines and of the broker.
\<close>

subsection \<open>Bytes and errors\<close>

type_synonym bytes = "8 word list"

text \<open>
  Modelled from the spec: the error kinds of the package core/errors, which is
  imported by the file and declared outside it. These are the three constants the
  file uses, under the names it uses.
\<close>

datatype err_kind = ErrInvalidStructure | ErrFailedOperation | ErrWrongBehavior

text \<open>
  Modelled from the spec: \<open>errors.New(kind, cause)\<close> of utils/errors builds an
  error value that carries its kind and its cause (a message, or the message of
  the error it wraps).
\<close>

datatype error = Failure (Nature: err_kind) (Cause: string)

definition errors_New :: "err_kind \<Rightarrow> string \<Rightarrow> error" where
  "errors_New k c = Failure k c"

subsection \<open>Go channels\<close>

text \<open>
  A channel created by \<open>make(chan T, n)\<close> has a capacity \<open>n\<close> (zero for
  \<open>make(chan T)\<close>), a buffer of at most \<open>n\<close> values, a queue of senders that wait
  with their value (in arrival order) and a closed flag. \<open>len(c)\<close> is the number
  of buffered values.
\<close>

record 'a chan =
  cap :: nat
  buf :: "'a list"
  sendq :: "'a list"
  is_closed :: bool

definition make_chan :: "nat \<Rightarrow> 'a chan" where
  "make_chan n = \<lparr>cap = n, buf = [], sendq = [], is_closed = False\<rparr>"

definition chan_len :: "'a chan \<Rightarrow> nat" where
  "chan_len c = length (buf c)"

text \<open>
  \<open>c <- v\<close>: a send on a closed channel panics; a send with room in the buffer
  stores the value and goes on; any other send leaves the sender waiting in the
  send queue until a receiver takes its value.
\<close>

datatype 'a sent = Sent "'a chan" | Parked "'a chan" | SendPanics

definition chan_send :: "'a chan \<Rightarrow> 'a \<Rightarrow> 'a sent" where
  "chan_send c v =
     (if is_closed c then SendPanics
      else if length (buf c) < cap c then Sent (c\<lparr>buf := buf c @ [v]\<rparr>)
      else Parked (c\<lparr>sendq := sendq c @ [v]\<rparr>))"

text \<open>
  \<open><-c\<close>: the oldest buffered value is taken first (and the oldest waiting sender
  moves its value into the buffer); with an empty buffer the value of the oldest
  waiting sender is taken directly; with neither, a closed channel yields the
  zero value with \<open>ok = false\<close> and an open channel blocks the receiver.
\<close>

datatype 'a received = Received 'a "'a chan" | RecvClosed | RecvBlocks

definition chan_recv :: "'a chan \<Rightarrow> 'a received" where
  "chan_recv c =
     (case buf c of
        x # xs \<Rightarrow>
          (case sendq c of
             [] \<Rightarrow> Received x (c\<lparr>buf := xs\<rparr>)
           | y # ys \<Rightarrow> Received x (c\<lparr>buf := xs @ [y], sendq := ys\<rparr>))
      | [] \<Rightarrow>
          (case sendq c of
             y # ys \<Rightarrow> Received y (c\<lparr>sendq := ys\<rparr>)
           | [] \<Rightarrow> if is_closed c then RecvClosed else RecvBlocks))"

definition chan_close :: "'a chan \<Rightarrow> 'a chan" where
  "chan_close c = c\<lparr>is_closed := True\<rparr>"

text \<open>The values that wait in a channel, oldest first.\<close>

definition queued :: "'a chan \<Rightarrow> 'a list" where
  "queued c = buf c @ sendq c"

subsection \<open>The inbound funnel: NewAdapter, Next, NextRegistration\<close>

text \<open>
  \<open>PktReq\<close> and \<open>RegReq\<close> carry a response channel; a channel value is a
  reference, modelled by a number, and \<open>None\<close> is the nil channel. The
  registration type is an interface declared outside the file and stays a type
  parameter. The embedded client and the logger of the adapter are external
  collaborators that \<open>Next\<close> and \<open>NextRegistration\<close> do not touch; the record
  keeps the two channels.
\<close>

record PktReq =
  Packet :: bytes
  Chresp :: "nat option"

record 'r RegReq =
  Registration :: 'r
  RegChresp :: "nat option"

datatype AckNacker = mqttAckNacker (AckChresp: "nat option")

record 'r Adapter =
  packets :: "PktReq chan"
  registrations :: "'r RegReq chan"

definition NewAdapter :: "'r Adapter" where
  "NewAdapter = \<lparr>packets = make_chan 0, registrations = make_chan 0\<rparr>"

text \<open>
  A call either returns a result and the adapter after the call, or blocks
  (\<open>None\<close>). \<open>Next\<close> receives from the packets channel; on a closed channel the
  receive yields the zero request.
\<close>

definition Next :: "'r Adapter \<Rightarrow> ((bytes \<times> AckNacker option \<times> error option) \<times> 'r Adapter) option" where
  "Next a =
     (case chan_recv (packets a) of
        Received p c \<Rightarrow> Some ((Packet p, Some (mqttAckNacker (Chresp p)), None), a\<lparr>packets := c\<rparr>)
      | RecvClosed \<Rightarrow> Some (([], Some (mqttAckNacker None), None), a)
      | RecvBlocks \<Rightarrow> None)"

definition NextRegistration :: "'r Adapter \<Rightarrow> (('r option \<times> AckNacker option \<times> error option) \<times> 'r Adapter) option" where
  "NextRegistration a = Some ((None, None, None), a)"

text \<open>
  A bound handler enqueues a request with \<open>chpkt <- req\<close> on the packets channel
  it is given (line 212 passes it \<open>a.packets\<close>); a sender that has to wait stays
  in the send queue of the channel.
\<close>

definition enqueue :: "'r Adapter \<Rightarrow> PktReq \<Rightarrow> 'r Adapter option" where
  "enqueue a r =
     (case chan_send (packets a) r of
        Sent c \<Rightarrow> Some (a\<lparr>packets := c\<rparr>)
      | Parked c \<Rightarrow> Some (a\<lparr>packets := c\<rparr>)
      | SendPanics \<Rightarrow> None)"

text \<open>
  The same for a registration request on the registrations channel
  (\<open>chreg <- req\<close>).
\<close>

definition enqueue_reg :: "'r Adapter \<Rightarrow> 'r RegReq \<Rightarrow> 'r Adapter option" where
  "enqueue_reg a q =
     (case chan_send (registrations a) q of
        Sent c \<Rightarrow> Some (a\<lparr>registrations := c\<rparr>)
      | Parked c \<Rightarrow> Some (a\<lparr>registrations := c\<rparr>)
      | SendPanics \<Rightarrow> None)"

text \<open>
  What happens at the funnel, in any order: a packet request arrives, a
  registration request arrives, the consumer calls \<open>Next\<close>, the consumer calls
  \<open>NextRegistration\<close>. A call of \<open>Next\<close> that finds nothing blocks; it is taken up
  again by a later \<open>Call\<close>. \<open>settle\<close> is the adapter after a sequence of such
  events, \<open>serve\<close> the results \<open>Next\<close> has returned during it, in order.
\<close>

datatype 'r funnel_ev = Arrive PktReq | ArriveReg "'r RegReq" | Call | CallReg

fun settle :: "'r funnel_ev list \<Rightarrow> 'r Adapter \<Rightarrow> 'r Adapter" where
  "settle [] a = a"
| "settle (Arrive r # es) a = (case enqueue a r of Some a' \<Rightarrow> settle es a' | None \<Rightarrow> a)"
| "settle (ArriveReg q # es) a = (case enqueue_reg a q of Some a' \<Rightarrow> settle es a' | None \<Rightarrow> a)"
| "settle (Call # es) a = (case Next a of Some (res, a') \<Rightarrow> settle es a' | None \<Rightarrow> settle es a)"
| "settle (CallReg # es) a =
     (case NextRegistration a of Some (res, a') \<Rightarrow> settle es a' | None \<Rightarrow> settle es a)"

fun serve :: "'r funnel_ev list \<Rightarrow> 'r Adapter \<Rightarrow> (bytes \<times> AckNacker option \<times> error option) list" where
  "serve [] a = []"
| "serve (Arrive r # es) a = (case enqueue a r of Some a' \<Rightarrow> serve es a' | None \<Rightarrow> [])"
| "serve (ArriveReg q # es) a = (case enqueue_reg a q of Some a' \<Rightarrow> serve es a' | None \<Rightarrow> [])"
| "serve (Call # es) a = (case Next a of Some (res, a') \<Rightarrow> res # serve es a' | None \<Rightarrow> serve es a)"
| "serve (CallReg # es) a =
     (case NextRegistration a of Some (res, a') \<Rightarrow> serve es a' | None \<Rightarrow> serve es a)"

text \<open>The packet requests and the registration requests of a sequence of events, in order.\<close>

fun arrivals :: "'r funnel_ev list \<Rightarrow> PktReq list" where
  "arrivals [] = []"
| "arrivals (Arrive r # es) = r # arrivals es"
| "arrivals (ArriveReg q # es) = arrivals es"
| "arrivals (Call # es) = arrivals es"
| "arrivals (CallReg # es) = arrivals es"

fun reg_arrivals :: "'r funnel_ev list \<Rightarrow> 'r RegReq list" where
  "reg_arrivals [] = []"
| "reg_arrivals (Arrive r # es) = reg_arrivals es"
| "reg_arrivals (ArriveReg q # es) = q # reg_arrivals es"
| "reg_arrivals (Call # es) = reg_arrivals es"
| "reg_arrivals (CallReg # es) = reg_arrivals es"

text \<open>
  How many calls of \<open>Next\<close> find a request during a sequence of events that
  starts with \<open>n\<close> requests waiting.
\<close>

fun answered :: "'r funnel_ev list \<Rightarrow> nat \<Rightarrow> nat" where
  "answered [] n = 0"
| "answered (Arrive r # es) n = answered es (Suc n)"
| "answered (ArriveReg q # es) n = answered es n"
| "answered (Call # es) 0 = answered es 0"
| "answered (Call # es) (Suc n) = Suc (answered es n)"
| "answered (CallReg # es) n = answered es n"

definition delivered :: "PktReq \<Rightarrow> bytes \<times> AckNacker option \<times> error option" where
  "delivered r = (Packet r, Some (mqttAckNacker (Chresp r)), None)"

section \<open>Send\<close>

subsection \<open>Inputs\<close>

text \<open>
  A recipient either satisfies the type assertion \<open>r.(MqttRecipient)\<close>, and then
  has an uplink and a downlink topic, or it is some other implementation of
  \<open>core.Recipient\<close>.
\<close>

datatype recipient = MqttRecipient (TopicUp: string) (TopicDown: string) | OtherRecipient

text \<open>
  The transport client is an external collaborator. What it does for the calls
  made on behalf of one recipient is an input: the error of the subscribe,
  publish and unsubscribe tokens (\<open>None\<close> when the token reports success) and the
  payloads the broker delivers on the downlink topic while the subscription is
  active, in order.
\<close>

record transport =
  sub_err :: "string option"
  pub_err :: "string option"
  unsub_err :: "string option"
  downlink :: "bytes list"

subsection \<open>Observable operations\<close>

text \<open>
  The trace records, in the order they happen, the call of \<open>MarshalBinary\<close>, every
  call on the transport client and every completed send into \<open>cherr\<close> and
  \<open>chresp\<close>, each with the index of the recipient it is made for. The flag of a
  transport operation says whether its token reported success.
\<close>

datatype op =
    Subscribe string bool
  | Publish string bytes bool
  | Unsubscribe string bool
  | SendErr error
  | SendResp bytes

datatype event = MarshalBinary | Op nat op

subsection \<open>Goroutines and state\<close>

text \<open>
  Per recipient the loop body starts two goroutines. The publisher (lines
  132-144) publishes, on failure sends an error into \<open>cherr\<close>, and returns. The
  collector (lines 147-166) waits in the \<open>select\<close>, forwards a received payload
  into \<open>chresp\<close>, and returns through the deferred unsubscribe. Both end with the
  deferred \<open>wg.Done()\<close>.
\<close>

datatype pub_pc = PubNone | PubReady | PubFailed error | PubDone

datatype col_pc = ColNone | ColSelect | ColForward bytes | ColCleanup | ColDone

text \<open>
  One slot per recipient the loop has reached: the recipient and the behaviour of
  the transport for it (what the goroutines close over), the two program
  counters, the private channel \<open>chdown\<close>, whether the subscription on the
  downlink topic is active, and the payloads the broker has not delivered yet.
  A recipient that is skipped keeps both counters at \<open>PubNone\<close> and \<open>ColNone\<close>.
\<close>

record task =
  rcp :: recipient
  env :: transport
  pub :: pub_pc
  col :: col_pc
  chdown :: "bytes chan"
  subscribed :: bool
  pending :: "bytes list"

text \<open>
  The main goroutine: before \<open>MarshalBinary\<close> (line 93), at the head of the loop
  for recipient \<open>k\<close> (line 108), at the send of a skip error for recipient \<open>k\<close>
  (lines 114 and 126; the flag says that \<open>close(chdown)\<close> follows), at
  \<open>wg.Wait()\<close> (line 171), or returned with its result.
\<close>

datatype main_pc =
    AtMarshal
  | AtLoop nat
  | AtRecord nat error bool
  | AtWait
  | Returned "error + bytes"

record state =
  packet :: "string + bytes"
  rcpts :: "(recipient \<times> transport) list"
  pc :: main_pc
  data :: bytes
  wg :: int
  cherr :: "error chan"
  chresp :: "bytes chan"
  tasks :: "task list"
  trace :: "event list"
  panicked :: bool

text \<open>
  The packet is given by what its \<open>MarshalBinary\<close> returns: the message of the
  error, or the bytes.
\<close>

definition init :: "string + bytes \<Rightarrow> (recipient \<times> transport) list \<Rightarrow> state" where
  "init p rs =
     \<lparr>packet = p, rcpts = rs, pc = AtMarshal, data = [], wg = 0,
      cherr = make_chan 0, chresp = make_chan 0, tasks = [], trace = [],
      panicked = False\<rparr>"

text \<open>\<open>wg.Done()\<close> decrements the counter and panics when it would become negative.\<close>

definition wg_Done :: "state \<Rightarrow> state" where
  "wg_Done s = (if wg s \<le> 0 then s\<lparr>panicked := True\<rparr> else s\<lparr>wg := wg s - 1\<rparr>)"

text \<open>Lines 176-192: the decision taken from the two closed channels.\<close>

definition collect :: "error chan \<Rightarrow> bytes chan \<Rightarrow> error + bytes" where
  "collect ce cr =
     (let errored = chan_len ce in
      if chan_len cr > 1 then
        Inl (errors_New ErrWrongBehavior ''Received too many positive answers'')
      else if chan_len cr = 0 \<and> errored \<noteq> 0 then
        Inl (errors_New ErrFailedOperation
               ''No positive response from recipients but got unexpected answers'')
      else if chan_len cr = 0 \<and> errored = 0 then
        Inl (errors_New ErrWrongBehavior ''No recipient gave a positive answer'')
      else
        (case chan_recv cr of
           Received x c \<Rightarrow> Inr x
         | RecvClosed \<Rightarrow> Inr []
         | RecvBlocks \<Rightarrow> Inr []))"

definition skipped_task :: "recipient \<Rightarrow> transport \<Rightarrow> task" where
  "skipped_task r t =
     \<lparr>rcp = r, env = t, pub = PubNone, col = ColNone, chdown = make_chan 0,
      subscribed = False, pending = []\<rparr>"

definition spawned_task :: "recipient \<Rightarrow> transport \<Rightarrow> task" where
  "spawned_task r t =
     \<lparr>rcp = r, env = t, pub = PubReady, col = ColSelect, chdown = make_chan 0,
      subscribed = True, pending = downlink t\<rparr>"

text \<open>
  One step of the main goroutine. \<open>None\<close> means that it cannot move: it waits in
  a send on a full channel or in \<open>wg.Wait()\<close>, or it has returned.
\<close>

definition main_step :: "state \<Rightarrow> state option" where
  "main_step s =
     (case pc s of
        AtMarshal \<Rightarrow>
          (case packet s of
             Inl e \<Rightarrow>
               Some (s\<lparr>trace := trace s @ [MarshalBinary],
                       pc := Returned (Inl (errors_New ErrInvalidStructure e))\<rparr>)
           | Inr d \<Rightarrow>
               Some (s\<lparr>trace := trace s @ [MarshalBinary], data := d,
                       cherr := make_chan (length (rcpts s)),
                       chresp := make_chan (length (rcpts s)),
                       wg := wg s + 2 * int (length (rcpts s)),
                       pc := AtLoop 0\<rparr>))
      | AtLoop k \<Rightarrow>
          (if k < length (rcpts s) then
             (case rcpts s ! k of
                (OtherRecipient, t) \<Rightarrow>
                  Some (s\<lparr>tasks := tasks s @ [skipped_task OtherRecipient t],
                          pc := AtRecord k
                                  (errors_New ErrInvalidStructure
                                     ''Unable to interpret recipient as mqttRecipient'')
                                  False\<rparr>)
              | (MqttRecipient up down, t) \<Rightarrow>
                  (case sub_err t of
                     Some e \<Rightarrow>
                       Some (s\<lparr>trace := trace s @ [Op k (Subscribe down False)],
                               tasks := tasks s @ [skipped_task (MqttRecipient up down) t],
                               pc := AtRecord k
                                       (errors_New ErrFailedOperation
                                          ''Unable to subscribe to down topic'')
                                       True\<rparr>)
                   | None \<Rightarrow>
                       Some (s\<lparr>trace := trace s @ [Op k (Subscribe down True)],
                               tasks := tasks s @ [spawned_task (MqttRecipient up down) t],
                               pc := AtLoop (Suc k)\<rparr>)))
           else Some (s\<lparr>pc := AtWait\<rparr>))
      | AtRecord k e closing \<Rightarrow>
          (case chan_send (cherr s) e of
             Sent c \<Rightarrow>
               Some (s\<lparr>cherr := c, trace := trace s @ [Op k (SendErr e)],
                       tasks := (if closing \<and> k < length (tasks s)
                                 then (tasks s)[k := (tasks s ! k)\<lparr>chdown := chan_close (chdown (tasks s ! k))\<rparr>]
                                 else tasks s),
                       pc := AtLoop (Suc k)\<rparr>)
           | Parked c \<Rightarrow> None
           | SendPanics \<Rightarrow> Some (s\<lparr>panicked := True\<rparr>))
      | AtWait \<Rightarrow>
          (if wg s = 0 then
             (if is_closed (cherr s) then Some (s\<lparr>panicked := True\<rparr>)
              else if is_closed (chresp s) then Some (s\<lparr>panicked := True\<rparr>)
              else Some (s\<lparr>cherr := chan_close (cherr s), chresp := chan_close (chresp s),
                           pc := Returned (collect (chan_close (cherr s)) (chan_close (chresp s)))\<rparr>))
           else None)
      | Returned r \<Rightarrow> None)"

text \<open>
  The publisher of recipient \<open>i\<close>: the publish (line 138), then either the return
  or the send of the error (line 141) and the return.
\<close>

definition pub_step :: "nat \<Rightarrow> state \<Rightarrow> state option" where
  "pub_step i s =
     (if i < length (tasks s) then
        (let t = tasks s ! i in
         case pub t of
           PubReady \<Rightarrow>
             (case rcp t of
                MqttRecipient up down \<Rightarrow>
                  (case pub_err (env t) of
                     None \<Rightarrow>
                       Some (wg_Done (s\<lparr>trace := trace s @ [Op i (Publish up (data s) True)],
                                        tasks := (tasks s)[i := t\<lparr>pub := PubDone\<rparr>]\<rparr>))
                   | Some e \<Rightarrow>
                       Some (s\<lparr>trace := trace s @ [Op i (Publish up (data s) False)],
                               tasks := (tasks s)[i := t\<lparr>pub := PubFailed (errors_New ErrFailedOperation e)\<rparr>]\<rparr>))
              | OtherRecipient \<Rightarrow> None)
         | PubFailed e \<Rightarrow>
             (case chan_send (cherr s) e of
                Sent c \<Rightarrow>
                  Some (wg_Done (s\<lparr>cherr := c, trace := trace s @ [Op i (SendErr e)],
                                   tasks := (tasks s)[i := t\<lparr>pub := PubDone\<rparr>]\<rparr>))
              | Parked c \<Rightarrow> None
              | SendPanics \<Rightarrow> Some (s\<lparr>panicked := True\<rparr>))
         | PubNone \<Rightarrow> None
         | PubDone \<Rightarrow> None)
      else None)"

text \<open>
  The collector of recipient \<open>i\<close> in the \<open>select\<close> (lines 159-165): the receive
  from \<open>chdown\<close>, enabled when a callback waits with a payload or the channel is
  closed, and the timeout.
\<close>

definition recv_step :: "nat \<Rightarrow> state \<Rightarrow> state option" where
  "recv_step i s =
     (if i < length (tasks s) then
        (let t = tasks s ! i in
         case col t of
           ColSelect \<Rightarrow>
             (case chan_recv (chdown t) of
                Received m c \<Rightarrow> Some (s\<lparr>tasks := (tasks s)[i := t\<lparr>col := ColForward m, chdown := c\<rparr>]\<rparr>)
              | RecvClosed \<Rightarrow> Some (s\<lparr>tasks := (tasks s)[i := t\<lparr>col := ColCleanup\<rparr>]\<rparr>)
              | RecvBlocks \<Rightarrow> None)
         | _ \<Rightarrow> None)
      else None)"

definition timeout_step :: "nat \<Rightarrow> state \<Rightarrow> state option" where
  "timeout_step i s =
     (if i < length (tasks s) then
        (let t = tasks s ! i in
         case col t of
           ColSelect \<Rightarrow> Some (s\<lparr>tasks := (tasks s)[i := t\<lparr>col := ColCleanup\<rparr>]\<rparr>)
         | _ \<Rightarrow> None)
      else None)"

text \<open>
  The collector after the \<open>select\<close>: the send into \<open>chresp\<close> (line 162), then the
  deferred calls, the unsubscribe (line 153) first and \<open>wg.Done()\<close> after it.
\<close>

definition col_step :: "nat \<Rightarrow> state \<Rightarrow> state option" where
  "col_step i s =
     (if i < length (tasks s) then
        (let t = tasks s ! i in
         case col t of
           ColForward m \<Rightarrow>
             (case chan_send (chresp s) m of
                Sent c \<Rightarrow>
                  Some (s\<lparr>chresp := c, trace := trace s @ [Op i (SendResp m)],
                          tasks := (tasks s)[i := t\<lparr>col := ColCleanup\<rparr>]\<rparr>)
              | Parked c \<Rightarrow> None
              | SendPanics \<Rightarrow> Some (s\<lparr>panicked := True\<rparr>))
         | ColCleanup \<Rightarrow>
             (case rcp t of
                MqttRecipient up down \<Rightarrow>
                  (case unsub_err (env t) of
                     None \<Rightarrow>
                       Some (wg_Done (s\<lparr>trace := trace s @ [Op i (Unsubscribe down True)],
                                        tasks := (tasks s)[i := t\<lparr>col := ColDone, subscribed := False\<rparr>]\<rparr>))
                   | Some e \<Rightarrow>
                       Some (wg_Done (s\<lparr>trace := trace s @ [Op i (Unsubscribe down False)],
                                        tasks := (tasks s)[i := t\<lparr>col := ColDone\<rparr>]\<rparr>)))
              | OtherRecipient \<Rightarrow> None)
         | _ \<Rightarrow> None)
      else None)"

text \<open>
  The broker delivers the next payload on the downlink topic of recipient \<open>i\<close>:
  the subscription callback (line 121) sends it into \<open>chdown\<close> and waits there.
\<close>

definition deliver_step :: "nat \<Rightarrow> state \<Rightarrow> state option" where
  "deliver_step i s =
     (if i < length (tasks s) then
        (let t = tasks s ! i in
         if subscribed t then
           (case pending t of
              [] \<Rightarrow> None
            | m # ms \<Rightarrow>
                (case chan_send (chdown t) m of
                   Sent c \<Rightarrow> Some (s\<lparr>tasks := (tasks s)[i := t\<lparr>chdown := c, pending := ms\<rparr>]\<rparr>)
                 | Parked c \<Rightarrow> Some (s\<lparr>tasks := (tasks s)[i := t\<lparr>chdown := c, pending := ms\<rparr>]\<rparr>)
                 | SendPanics \<Rightarrow> Some (s\<lparr>panicked := True\<rparr>)))
         else None)
      else None)"

subsection \<open>Interleavings\<close>

text \<open>
  An action names the goroutine that moves. A schedule is a list of actions; an
  action that cannot move leaves the state as it is. A panic stops everything.
\<close>

datatype action = Main | Pub nat | Recv nat | Timeout nat | Col nat | Deliver nat

definition step :: "action \<Rightarrow> state \<Rightarrow> state option" where
  "step a s =
     (if panicked s then None
      else (case a of
              Main \<Rightarrow> main_step s
            | Pub i \<Rightarrow> pub_step i s
            | Recv i \<Rightarrow> recv_step i s
            | Timeout i \<Rightarrow> timeout_step i s
            | Col i \<Rightarrow> col_step i s
            | Deliver i \<Rightarrow> deliver_step i s))"

fun exec :: "action list \<Rightarrow> state \<Rightarrow> state" where
  "exec [] s = s"
| "exec (a # as) s = exec as (case step a s of None \<Rightarrow> s | Some s' \<Rightarrow> s')"

definition run :: "action list \<Rightarrow> string + bytes \<Rightarrow> (recipient \<times> transport) list \<Rightarrow> state" where
  "run sched p rs = exec sched (init p rs)"

text \<open>What \<open>Send\<close> has returned in a state, if it has.\<close>

definition result :: "state \<Rightarrow> (error + bytes) option" where
  "result s = (case pc s of Returned r \<Rightarrow> Some r | _ \<Rightarrow> None)"

text \<open>The operations made for recipient \<open>i\<close>, in order.\<close>

fun ops :: "nat \<Rightarrow> event list \<Rightarrow> op list" where
  "ops i [] = []"
| "ops i (MarshalBinary # es) = ops i es"
| "ops i (Op j x # es) = (if j = i then x # ops i es else ops i es)"

fun is_sub :: "op \<Rightarrow> bool" where
  "is_sub (Subscribe t b) = True"
| "is_sub _ = False"

fun is_pub :: "op \<Rightarrow> bool" where
  "is_pub (Publish t d b) = True"
| "is_pub _ = False"

fun is_unsub :: "op \<Rightarrow> bool" where
  "is_unsub (Unsubscribe t b) = True"
| "is_unsub _ = False"

fun is_err :: "op \<Rightarrow> bool" where
  "is_err (SendErr e) = True"
| "is_err _ = False"

fun is_resp :: "op \<Rightarrow> bool" where
  "is_resp (SendResp m) = True"
| "is_resp _ = False"

definition cnt :: "(op \<Rightarrow> bool) \<Rightarrow> op list \<Rightarrow> nat" where
  "cnt P xs = length (filter P xs)"

subsection \<open>Invariants of the interleavings\<close>

text \<open>
  \<open>Send\<close> has started once \<open>MarshalBinary\<close> has returned bytes and line 102 has
  been reached.
\<close>

definition started :: "state \<Rightarrow> bool" where
  "started s = (case packet s of Inl e \<Rightarrow> False | Inr d \<Rightarrow> pc s \<noteq> AtMarshal)"

definition tally :: "('a \<Rightarrow> nat) \<Rightarrow> 'a list \<Rightarrow> nat" where
  "tally f xs = sum_list (map f xs)"

text \<open>
  Per slot: how many of its goroutines have called \<open>wg.Done()\<close>, whether its
  publisher may still send into \<open>cherr\<close>, whether its collector may still send
  into \<open>chresp\<close>.
\<close>

definition finished :: "task \<Rightarrow> nat" where
  "finished t = of_bool (pub t = PubDone) + of_bool (col t = ColDone)"

fun pub_live :: "pub_pc \<Rightarrow> bool" where
  "pub_live PubReady = True"
| "pub_live (PubFailed e) = True"
| "pub_live PubNone = False"
| "pub_live PubDone = False"

fun col_waits :: "col_pc \<Rightarrow> bool" where
  "col_waits ColSelect = True"
| "col_waits (ColForward m) = True"
| "col_waits ColNone = False"
| "col_waits ColCleanup = False"
| "col_waits ColDone = False"

definition owes_err :: "task \<Rightarrow> nat" where
  "owes_err t = of_bool (pub_live (pub t))"

definition owes_resp :: "task \<Rightarrow> nat" where
  "owes_resp t = of_bool (col_waits (col t))"

fun main_owes :: "main_pc \<Rightarrow> nat" where
  "main_owes (AtRecord k e c) = 1"
| "main_owes AtMarshal = 0"
| "main_owes (AtLoop k) = 0"
| "main_owes AtWait = 0"
| "main_owes (Returned r) = 0"

definition task_inv :: "task \<Rightarrow> bool" where
  "task_inv t \<longleftrightarrow>
     (pub t = PubNone \<longleftrightarrow> col t = ColNone) \<and>
     (subscribed t \<longrightarrow> pub t \<noteq> PubNone) \<and>
     (pub t \<noteq> PubNone \<longrightarrow> \<not> is_closed (chdown t) \<and> rcp t \<noteq> OtherRecipient)"

fun pc_inv :: "main_pc \<Rightarrow> state \<Rightarrow> bool" where
  "pc_inv AtMarshal s = False"
| "pc_inv (AtLoop k) s = (length (tasks s) = k)"
| "pc_inv (AtRecord k e c) s = (length (tasks s) = Suc k \<and> pub (tasks s ! k) = PubNone)"
| "pc_inv AtWait s = (length (tasks s) = length (rcpts s))"
| "pc_inv (Returned r) s = (length (tasks s) = length (rcpts s) \<and> wg s = 0)"

fun has_returned :: "main_pc \<Rightarrow> bool" where
  "has_returned (Returned r) = True"
| "has_returned AtMarshal = False"
| "has_returned (AtLoop k) = False"
| "has_returned (AtRecord k e c) = False"
| "has_returned AtWait = False"

definition inv :: "state \<Rightarrow> bool" where
  "inv s \<longleftrightarrow>
     \<not> panicked s \<and>
     length (tasks s) \<le> length (rcpts s) \<and>
     (\<forall>t \<in> set (tasks s). task_inv t) \<and>
     (\<not> started s \<longrightarrow>
        tasks s = [] \<and> wg s = 0 \<and> (pc s = AtMarshal \<or> (\<exists>e. pc s = Returned (Inl e)))) \<and>
     (started s \<longrightarrow>
        pc_inv (pc s) s \<and>
        cap (cherr s) = length (rcpts s) \<and> cap (chresp s) = length (rcpts s) \<and>
        wg s + int (tally finished (tasks s)) = 2 * int (length (rcpts s)) \<and>
        length (buf (cherr s)) + tally owes_err (tasks s) + main_owes (pc s) \<le> length (tasks s) \<and>
        length (buf (chresp s)) + tally owes_resp (tasks s) \<le> length (tasks s)) \<and>
     (is_closed (cherr s) \<longrightarrow> has_returned (pc s)) \<and>
     (is_closed (chresp s) \<longrightarrow> has_returned (pc s))"

text \<open>
  The operations made for one recipient, against the state of its slot. While
  the main goroutine is at the send of the skip error of a recipient, that error
  is not in the trace yet.
\<close>

fun recording :: "main_pc \<Rightarrow> nat \<Rightarrow> bool" where
  "recording (AtRecord k e c) i = (k = i)"
| "recording AtMarshal i = False"
| "recording (AtLoop k) i = False"
| "recording AtWait i = False"
| "recording (Returned r) i = False"

fun skip_error :: "recipient \<Rightarrow> error" where
  "skip_error OtherRecipient =
     errors_New ErrInvalidStructure ''Unable to interpret recipient as mqttRecipient''"
| "skip_error (MqttRecipient up down) =
     errors_New ErrFailedOperation ''Unable to subscribe to down topic''"

definition ops_ok :: "bool \<Rightarrow> task \<Rightarrow> op list \<Rightarrow> bool" where
  "ops_ok rec t os =
     (case rcp t of
        OtherRecipient \<Rightarrow>
          pub t = PubNone \<and> os = (if rec then [] else [SendErr (skip_error (rcp t))])
      | MqttRecipient up down \<Rightarrow>
          (if pub t = PubNone then
             sub_err (env t) \<noteq> None \<and>
             os = Subscribe down False # (if rec then [] else [SendErr (skip_error (rcp t))])
           else
             sub_err (env t) = None \<and> \<not> rec \<and> os \<noteq> [] \<and> hd os = Subscribe down True \<and>
             cnt is_sub (tl os) = 0 \<and>
             cnt is_pub (tl os) = of_bool (pub t \<noteq> PubReady) \<and>
             cnt is_err (tl os) \<le> of_bool (pub t = PubDone) \<and>
             cnt is_resp (tl os) \<le> of_bool (col t = ColCleanup \<or> col t = ColDone) \<and>
             cnt is_unsub (tl os) = of_bool (col t = ColDone)))"

fun record_inv :: "main_pc \<Rightarrow> state \<Rightarrow> bool" where
  "record_inv (AtRecord k e c) s = (e = skip_error (rcp (tasks s ! k)))"
| "record_inv AtMarshal s = True"
| "record_inv (AtLoop k) s = True"
| "record_inv AtWait s = True"
| "record_inv (Returned r) s = True"

definition inv_ops :: "state \<Rightarrow> bool" where
  "inv_ops s \<longleftrightarrow>
     record_inv (pc s) s \<and>
     (\<forall>i. i < length (tasks s) \<longrightarrow>
        (rcp (tasks s ! i), env (tasks s ! i)) = rcpts s ! i \<and>
        ops_ok (recording (pc s) i) (tasks s ! i) (ops i (trace s))) \<and>
     (\<forall>i. length (tasks s) \<le> i \<longrightarrow> ops i (trace s) = [])"

text \<open>
  What the trace says about the two shared channels and about \<open>MarshalBinary\<close>:
  the errors sent into \<open>cherr\<close>, the payloads sent into \<open>chresp\<close>, the number
  of calls of \<open>MarshalBinary\<close>.
\<close>

fun errs :: "event list \<Rightarrow> error list" where
  "errs [] = []"
| "errs (Op i (SendErr e) # es) = e # errs es"
| "errs (x # es) = errs es"

fun resps :: "event list \<Rightarrow> bytes list" where
  "resps [] = []"
| "resps (Op i (SendResp m) # es) = m # resps es"
| "resps (x # es) = resps es"

fun marshals :: "event list \<Rightarrow> nat" where
  "marshals [] = 0"
| "marshals (MarshalBinary # es) = Suc (marshals es)"
| "marshals (x # es) = marshals es"

definition inv_trace :: "state \<Rightarrow> bool" where
  "inv_trace s \<longleftrightarrow>
     buf (cherr s) = errs (trace s) \<and> buf (chresp s) = resps (trace s) \<and>
     marshals (trace s) = of_bool (pc s \<noteq> AtMarshal) \<and>
     (pc s = AtMarshal \<longrightarrow> trace s = []) \<and>
     (case packet s of
        Inl c \<Rightarrow> pc s = AtMarshal \<or> pc s = Returned (Inl (errors_New ErrInvalidStructure c))
      | Inr d \<Rightarrow> pc s = AtMarshal \<or> data s = d)"

text \<open>
  The loop body for recipient \<open>i\<close> has run, to one of its \<open>continue\<close> or to its
  end.
\<close>

definition passed :: "state \<Rightarrow> nat \<Rightarrow> bool" where
  "passed s i \<longleftrightarrow> i < length (tasks s) \<and> \<not> recording (pc s) i"

text \<open>
  An operation made for a recipient is the one the code makes for it: the topics
  are the recipient's, the flag is what the transport answers, the data published
  is the marshalled packet, an error sent into \<open>cherr\<close> is the skip error of the
  recipient or the wrapped error of its publish, and a payload sent into
  \<open>chresp\<close> is the first one the broker delivers on the downlink topic.
\<close>

fun op_ok :: "recipient \<Rightarrow> transport \<Rightarrow> bytes \<Rightarrow> op \<Rightarrow> bool" where
  "op_ok OtherRecipient t d (SendErr e) = (e = skip_error OtherRecipient)"
| "op_ok OtherRecipient t d x = False"
| "op_ok (MqttRecipient up down) t d (Subscribe tp b) = (tp = down \<and> b = (sub_err t = None))"
| "op_ok (MqttRecipient up down) t d (Publish tp x b) =
     (sub_err t = None \<and> tp = up \<and> x = d \<and> b = (pub_err t = None))"
| "op_ok (MqttRecipient up down) t d (Unsubscribe tp b) =
     (sub_err t = None \<and> tp = down \<and> b = (unsub_err t = None))"
| "op_ok (MqttRecipient up down) t d (SendErr e) =
     (case sub_err t of
        Some c \<Rightarrow> e = skip_error (MqttRecipient up down)
      | None \<Rightarrow> (case pub_err t of
                   Some c \<Rightarrow> e = errors_New ErrFailedOperation c
                 | None \<Rightarrow> False))"
| "op_ok (MqttRecipient up down) t d (SendResp m) =
     (sub_err t = None \<and> (case downlink t of [] \<Rightarrow> False | x # xs \<Rightarrow> m = x))"

fun ev_ok :: "(recipient \<times> transport) list \<Rightarrow> bytes \<Rightarrow> event \<Rightarrow> bool" where
  "ev_ok rs d MarshalBinary = True"
| "ev_ok rs d (Op i x) = (i < length rs \<and> op_ok (fst (rs ! i)) (snd (rs ! i)) d x)"

fun forward_ok :: "col_pc \<Rightarrow> bytes list \<Rightarrow> bool" where
  "forward_ok (ColForward m) [] = False"
| "forward_ok (ColForward m) (x # xs) = (m = x)"
| "forward_ok c xs = True"

fun failed_ok :: "pub_pc \<Rightarrow> string option \<Rightarrow> bool" where
  "failed_ok (PubFailed e) None = False"
| "failed_ok (PubFailed e) (Some c) = (e = errors_New ErrFailedOperation c)"
| "failed_ok p c = True"

definition task_wf :: "task \<Rightarrow> bool" where
  "task_wf t \<longleftrightarrow>
     cap (chdown t) = 0 \<and> buf (chdown t) = [] \<and>
     (col t = ColSelect \<longrightarrow> sendq (chdown t) @ pending t = downlink (env t)) \<and>
     forward_ok (col t) (downlink (env t)) \<and>
     failed_ok (pub t) (pub_err (env t))"

definition inv_wf :: "state \<Rightarrow> bool" where
  "inv_wf s \<longleftrightarrow>
     (\<forall>e \<in> set (trace s). ev_ok (rcpts s) (data s) e) \<and> (\<forall>t \<in> set (tasks s). task_wf t)"

text \<open>The invariants together.\<close>

definition invs :: "state \<Rightarrow> bool" where
  "invs s \<longleftrightarrow> inv s \<and> inv_ops s \<and> inv_trace s \<and> inv_wf s"

subsection \<open>Example inputs\<close>

definition quiet :: transport where
  "quiet = \<lparr>sub_err = None, pub_err = None, unsub_err = None, downlink = []\<rparr>"

definition answering :: "bytes \<Rightarrow> transport" where
  "answering m = \<lparr>sub_err = None, pub_err = None, unsub_err = None, downlink = [m]\<rparr>"

definition refusing :: transport where
  "refusing = \<lparr>sub_err = Some ''refused'', pub_err = None, unsub_err = None, downlink = []\<rparr>"

section \<open>Properties of the inbound funnel\<close>

lemma queued_recv:
  "queued c = r # rs \<Longrightarrow>
   \<exists>c'. chan_recv c = Received r c' \<and> queued c' = rs \<and> is_closed c' = is_closed c \<and>
        cap c' = cap c"
  by (auto simp: queued_def chan_recv_def split: list.splits)

lemma enqueue_queued:
  "cap (packets a) = 0 \<Longrightarrow> \<not> is_closed (packets a) \<Longrightarrow>
   \<exists>a'. enqueue a r = Some a' \<and> queued (packets a') = queued (packets a) @ [r] \<and>
        cap (packets a') = 0 \<and> \<not> is_closed (packets a') \<and>
        registrations a' = registrations a"
  by (simp add: enqueue_def chan_send_def queued_def)

lemma enqueue_reg_queued:
  "cap (registrations a) = 0 \<Longrightarrow> \<not> is_closed (registrations a) \<Longrightarrow>
   \<exists>a'. enqueue_reg a q = Some a' \<and>
        queued (registrations a') = queued (registrations a) @ [q] \<and>
        cap (registrations a') = 0 \<and> \<not> is_closed (registrations a') \<and>
        packets a' = packets a"
  by (simp add: enqueue_reg_def chan_send_def queued_def)

lemma Next_empty: "\<not> is_closed (packets a) \<Longrightarrow> queued (packets a) = [] \<Longrightarrow> Next a = None"
  by (simp add: Next_def chan_recv_def queued_def)

lemma Next_blocks_iff: "\<not> is_closed (packets a) \<Longrightarrow> Next a = None \<longleftrightarrow> queued (packets a) = []"
  by (auto simp: Next_def chan_recv_def queued_def split: list.splits)

lemma Next_head:
  "queued (packets a) = r # rs \<Longrightarrow>
   \<exists>a'. Next a = Some (delivered r, a') \<and> queued (packets a') = rs \<and>
        is_closed (packets a') = is_closed (packets a) \<and> cap (packets a') = cap (packets a) \<and>
        registrations a' = registrations a"
  using queued_recv [of "packets a" r rs] by (auto simp: Next_def delivered_def)

text \<open>
  The state in which the funnel stays: both channels unbuffered and open.
\<close>

lemma funnel_run:
  assumes "cap (packets a) = 0" and "\<not> is_closed (packets a)"
    and "cap (registrations a) = 0" and "\<not> is_closed (registrations a)"
  shows "serve es a =
           map delivered (take (answered es (length (queued (packets a))))
                               (queued (packets a) @ arrivals es)) \<and>
         queued (packets (settle es a)) =
           drop (answered es (length (queued (packets a)))) (queued (packets a) @ arrivals es) \<and>
         queued (registrations (settle es a)) = queued (registrations a) @ reg_arrivals es \<and>
         cap (packets (settle es a)) = 0 \<and> \<not> is_closed (packets (settle es a)) \<and>
         cap (registrations (settle es a)) = 0 \<and> \<not> is_closed (registrations (settle es a))"
  using assms
proof (induction es arbitrary: a)
  case Nil
  then show ?case by simp
next
  case (Cons e es)
  show ?case
  proof (cases e)
    case (Arrive r)
    from enqueue_queued [OF Cons.prems(1,2), of r] obtain a' where
      a': "enqueue a r = Some a'" "queued (packets a') = queued (packets a) @ [r]"
          "cap (packets a') = 0" "\<not> is_closed (packets a')"
          "registrations a' = registrations a"
      by blast
    from Cons.IH [of a'] a' Cons.prems Arrive show ?thesis by simp
  next
    case (ArriveReg q)
    from enqueue_reg_queued [OF Cons.prems(3,4), of q] obtain a' where
      a': "enqueue_reg a q = Some a'"
          "queued (registrations a') = queued (registrations a) @ [q]"
          "cap (registrations a') = 0" "\<not> is_closed (registrations a')"
          "packets a' = packets a"
      by blast
    from Cons.IH [of a'] a' Cons.prems ArriveReg show ?thesis by simp
  next
    case Call
    show ?thesis
    proof (cases "queued (packets a)")
      case Nil
      with Cons.prems have "Next a = None" by (simp add: Next_empty)
      with Cons.IH [of a] Cons.prems Call Nil show ?thesis by simp
    next
      case (Cons r rs)
      from Next_head [OF Cons] obtain a' where
        a': "Next a = Some (delivered r, a')" "queued (packets a') = rs"
            "is_closed (packets a') = is_closed (packets a)"
            "cap (packets a') = cap (packets a)" "registrations a' = registrations a"
        by blast
      from Cons.IH [of a'] a' Cons.prems Call Cons show ?thesis by simp
    qed
  next
    case CallReg
    from Cons.IH [of a] Cons.prems CallReg show ?thesis
      by (simp add: NextRegistration_def)
  qed
qed

lemma NewAdapter_open:
  "cap (packets NewAdapter) = 0 \<and> \<not> is_closed (packets NewAdapter) \<and>
   queued (packets NewAdapter) = [] \<and> buf (packets NewAdapter) = [] \<and>
   cap (registrations NewAdapter) = 0 \<and> \<not> is_closed (registrations NewAdapter) \<and>
   queued (registrations NewAdapter) = [] \<and> buf (registrations NewAdapter) = []"
  by (simp add: NewAdapter_def make_chan_def queued_def)


text \<open>
  C8: on an adapter whose channels are as \<open>NewAdapter\<close> makes them (unbuffered,
  open), \<open>Next\<close> blocks exactly while no request waits on the packets channel.
  Otherwise it returns the payload of the oldest waiting request, an
  acknowledgement handle on that request's response channel and a nil error; it
  removes that request and nothing else, and leaves the channels unbuffered and
  open, so that the same holds for the next call. Over any sequence of arrivals
  and calls, in any order, the calls that return give the requests in the order
  they arrived, none skipped: the results are the first \<open>answered\<close> of the
  requests that waited or arrived, and the rest still wait in that order.
\<close>

theorem Next_blocks_then_fifo:
  assumes "cap (packets a) = 0" and "\<not> is_closed (packets a)"
    and "cap (registrations a) = 0" and "\<not> is_closed (registrations a)"
  shows "(Next a = None \<longleftrightarrow> queued (packets a) = []) \<and>
         (\<forall>r rs. queued (packets a) = r # rs \<longrightarrow>
            (\<exists>a'. Next a = Some ((Packet r, Some (mqttAckNacker (Chresp r)), None), a') \<and>
                  queued (packets a') = rs \<and>
                  cap (packets a') = 0 \<and> \<not> is_closed (packets a') \<and>
                  registrations a' = registrations a)) \<and>
         serve es a =
           map (\<lambda>q. (Packet q, Some (mqttAckNacker (Chresp q)), None))
               (take (answered es (length (queued (packets a))))
                     (queued (packets a) @ arrivals es)) \<and>
         queued (packets (settle es a)) =
           drop (answered es (length (queued (packets a)))) (queued (packets a) @ arrivals es) \<and>
         cap (packets (settle es a)) = 0 \<and> \<not> is_closed (packets (settle es a)) \<and>
         cap (registrations (settle es a)) = 0 \<and> \<not> is_closed (registrations (settle es a))"
proof -
  have blocks: "Next a = None \<longleftrightarrow> queued (packets a) = []"
    using assms(2) by (rule Next_blocks_iff)
  have head: "\<forall>r rs. queued (packets a) = r # rs \<longrightarrow>
        (\<exists>a'. Next a = Some ((Packet r, Some (mqttAckNacker (Chresp r)), None), a') \<and>
              queued (packets a') = rs \<and>
              cap (packets a') = 0 \<and> \<not> is_closed (packets a') \<and>
              registrations a' = registrations a)"
  proof (intro allI impI)
    fix r rs
    assume "queued (packets a) = r # rs"
    from Next_head [OF this] assms(1,2)
    show "\<exists>a'. Next a = Some ((Packet r, Some (mqttAckNacker (Chresp r)), None), a') \<and>
              queued (packets a') = rs \<and>
              cap (packets a') = 0 \<and> \<not> is_closed (packets a') \<and>
              registrations a' = registrations a"
      by (auto simp: delivered_def)
  qed
  note run = funnel_run [OF assms, of es]
  from run have fifo: "serve es a =
           map (\<lambda>q. (Packet q, Some (mqttAckNacker (Chresp q)), None))
               (take (answered es (length (queued (packets a))))
                     (queued (packets a) @ arrivals es))"
    by (simp add: delivered_def [abs_def])
  from blocks head fifo run show ?thesis by blast
qed

theorem Next_blocks_then_fifo_witness:
  "Next (NewAdapter :: unit Adapter) = None \<and>
   serve [Arrive \<lparr>Packet = [1], Chresp = Some 10\<rparr>, Arrive \<lparr>Packet = [2], Chresp = Some 11\<rparr>,
          Call, Arrive \<lparr>Packet = [3], Chresp = Some 12\<rparr>, Call, Call, Call]
         (NewAdapter :: unit Adapter) =
     [([1], Some (mqttAckNacker (Some 10)), None), ([2], Some (mqttAckNacker (Some 11)), None),
      ([3], Some (mqttAckNacker (Some 12)), None)]"
  using Next_blocks_then_fifo [of "NewAdapter :: unit Adapter"
          "[Arrive \<lparr>Packet = [1], Chresp = Some 10\<rparr>, Arrive \<lparr>Packet = [2], Chresp = Some 11\<rparr>,
            Call, Arrive \<lparr>Packet = [3], Chresp = Some 12\<rparr>, Call, Call, Call]"]
  by (simp add: NewAdapter_open)

text \<open>
  C9: \<open>NextRegistration\<close> returns at once, whatever the state of the adapter,
  with a nil registration, a nil acknowledgement handle and a nil error, and
  leaves the adapter as it was.
\<close>

theorem NextRegistration_returns_nil:
  "NextRegistration a = Some ((None, None, None), a)"
  by (simp add: NextRegistration_def)



section \<open>Properties of Send\<close>

subsection \<open>The steps, case by case\<close>

lemma main_step_AtMarshal:
  "pc s = AtMarshal \<Longrightarrow>
   main_step s =
     (case packet s of
        Inl e \<Rightarrow>
          Some (s\<lparr>trace := trace s @ [MarshalBinary],
                  pc := Returned (Inl (errors_New ErrInvalidStructure e))\<rparr>)
      | Inr d \<Rightarrow>
          Some (s\<lparr>trace := trace s @ [MarshalBinary], data := d,
                  cherr := make_chan (length (rcpts s)),
                  chresp := make_chan (length (rcpts s)),
                  wg := wg s + 2 * int (length (rcpts s)),
                  pc := AtLoop 0\<rparr>))"
  by (simp add: main_step_def)

lemma main_step_AtLoop:
  "pc s = AtLoop k \<Longrightarrow>
   main_step s =
     (if k < length (rcpts s) then
        (case rcpts s ! k of
           (OtherRecipient, t) \<Rightarrow>
             Some (s\<lparr>tasks := tasks s @ [skipped_task OtherRecipient t],
                     pc := AtRecord k (skip_error OtherRecipient) False\<rparr>)
         | (MqttRecipient up down, t) \<Rightarrow>
             (case sub_err t of
                Some e \<Rightarrow>
                  Some (s\<lparr>trace := trace s @ [Op k (Subscribe down False)],
                          tasks := tasks s @ [skipped_task (MqttRecipient up down) t],
                          pc := AtRecord k (skip_error (MqttRecipient up down)) True\<rparr>)
              | None \<Rightarrow>
                  Some (s\<lparr>trace := trace s @ [Op k (Subscribe down True)],
                          tasks := tasks s @ [spawned_task (MqttRecipient up down) t],
                          pc := AtLoop (Suc k)\<rparr>)))
      else Some (s\<lparr>pc := AtWait\<rparr>))"
  by (simp add: main_step_def split: prod.splits recipient.splits option.splits)

lemma main_step_AtRecord:
  "pc s = AtRecord k e closing \<Longrightarrow>
   main_step s =
     (case chan_send (cherr s) e of
        Sent c \<Rightarrow>
          Some (s\<lparr>cherr := c, trace := trace s @ [Op k (SendErr e)],
                  tasks := (if closing \<and> k < length (tasks s)
                            then (tasks s)[k := (tasks s ! k)\<lparr>chdown := chan_close (chdown (tasks s ! k))\<rparr>]
                            else tasks s),
                  pc := AtLoop (Suc k)\<rparr>)
      | Parked c \<Rightarrow> None
      | SendPanics \<Rightarrow> Some (s\<lparr>panicked := True\<rparr>))"
  by (simp add: main_step_def)

lemma main_step_AtWait:
  "pc s = AtWait \<Longrightarrow>
   main_step s =
     (if wg s = 0 then
        (if is_closed (cherr s) then Some (s\<lparr>panicked := True\<rparr>)
         else if is_closed (chresp s) then Some (s\<lparr>panicked := True\<rparr>)
         else Some (s\<lparr>cherr := chan_close (cherr s), chresp := chan_close (chresp s),
                      pc := Returned (collect (chan_close (cherr s)) (chan_close (chresp s)))\<rparr>))
      else None)"
  by (simp add: main_step_def)

lemma main_step_Returned: "pc s = Returned r \<Longrightarrow> main_step s = None"
  by (simp add: main_step_def)

lemma main_stepE:
  assumes "main_step s = Some s'"
  obtains
    (bad_packet) e where "pc s = AtMarshal" "packet s = Inl e"
      "s' = s\<lparr>trace := trace s @ [MarshalBinary],
               pc := Returned (Inl (errors_New ErrInvalidStructure e))\<rparr>"
  | (marshalled) d where "pc s = AtMarshal" "packet s = Inr d"
      "s' = s\<lparr>trace := trace s @ [MarshalBinary], data := d,
               cherr := make_chan (length (rcpts s)),
               chresp := make_chan (length (rcpts s)),
               wg := wg s + 2 * int (length (rcpts s)),
               pc := AtLoop 0\<rparr>"
  | (not_mqtt) k t where "pc s = AtLoop k" "k < length (rcpts s)" "rcpts s ! k = (OtherRecipient, t)"
      "s' = s\<lparr>tasks := tasks s @ [skipped_task OtherRecipient t],
               pc := AtRecord k (skip_error OtherRecipient) False\<rparr>"
  | (sub_failed) k up down t e where "pc s = AtLoop k" "k < length (rcpts s)"
      "rcpts s ! k = (MqttRecipient up down, t)" "sub_err t = Some e"
      "s' = s\<lparr>trace := trace s @ [Op k (Subscribe down False)],
               tasks := tasks s @ [skipped_task (MqttRecipient up down) t],
               pc := AtRecord k (skip_error (MqttRecipient up down)) True\<rparr>"
  | (spawned) k up down t where "pc s = AtLoop k" "k < length (rcpts s)"
      "rcpts s ! k = (MqttRecipient up down, t)" "sub_err t = None"
      "s' = s\<lparr>trace := trace s @ [Op k (Subscribe down True)],
               tasks := tasks s @ [spawned_task (MqttRecipient up down) t],
               pc := AtLoop (Suc k)\<rparr>"
  | (loop_end) k where "pc s = AtLoop k" "\<not> k < length (rcpts s)" "s' = s\<lparr>pc := AtWait\<rparr>"
  | (recorded) k e closing c where "pc s = AtRecord k e closing" "chan_send (cherr s) e = Sent c"
      "s' = s\<lparr>cherr := c, trace := trace s @ [Op k (SendErr e)],
               tasks := (if closing \<and> k < length (tasks s)
                         then (tasks s)[k := (tasks s ! k)\<lparr>chdown := chan_close (chdown (tasks s ! k))\<rparr>]
                         else tasks s),
               pc := AtLoop (Suc k)\<rparr>"
  | (record_panics) k e closing where "pc s = AtRecord k e closing"
      "chan_send (cherr s) e = SendPanics" "s' = s\<lparr>panicked := True\<rparr>"
  | (close_panics) "pc s = AtWait" "wg s = 0" "is_closed (cherr s) \<or> is_closed (chresp s)"
      "s' = s\<lparr>panicked := True\<rparr>"
  | (joined) "pc s = AtWait" "wg s = 0" "\<not> is_closed (cherr s)" "\<not> is_closed (chresp s)"
      "s' = s\<lparr>cherr := chan_close (cherr s), chresp := chan_close (chresp s),
               pc := Returned (collect (chan_close (cherr s)) (chan_close (chresp s)))\<rparr>"
proof (cases "pc s")
  case AtMarshal
  with assms bad_packet marshalled show ?thesis
    by (auto simp: main_step_AtMarshal split: sum.splits)
next
  case (AtLoop k)
  show ?thesis
  proof (cases "k < length (rcpts s)")
    case False
    with assms AtLoop loop_end show ?thesis by (simp add: main_step_AtLoop)
  next
    case True
    obtain r t where rt: "rcpts s ! k = (r, t)" by (cases "rcpts s ! k")
    show ?thesis
    proof (cases r)
      case OtherRecipient
      with assms AtLoop True rt not_mqtt show ?thesis by (simp add: main_step_AtLoop)
    next
      case (MqttRecipient up down)
      with assms AtLoop True rt sub_failed [of k up down t] spawned [of k up down t]
      show ?thesis by (cases "sub_err t") (simp_all add: main_step_AtLoop)
    qed
  qed
next
  case (AtRecord k e closing)
  with assms recorded [of k e closing] record_panics [of k e closing] show ?thesis
    by (cases "chan_send (cherr s) e") (simp_all add: main_step_AtRecord)
next
  case AtWait
  with assms close_panics joined show ?thesis
    by (auto simp: main_step_AtWait split: if_splits)
next
  case (Returned r)
  with assms show ?thesis by (simp add: main_step_Returned)
qed

lemma pub_stepE:
  assumes "pub_step i s = Some s'"
  obtains
    (published) up down where "i < length (tasks s)" "pub (tasks s ! i) = PubReady"
      "rcp (tasks s ! i) = MqttRecipient up down" "pub_err (env (tasks s ! i)) = None"
      "s' = wg_Done (s\<lparr>trace := trace s @ [Op i (Publish up (data s) True)],
                        tasks := (tasks s)[i := (tasks s ! i)\<lparr>pub := PubDone\<rparr>]\<rparr>)"
  | (pub_failed) up down e where "i < length (tasks s)" "pub (tasks s ! i) = PubReady"
      "rcp (tasks s ! i) = MqttRecipient up down" "pub_err (env (tasks s ! i)) = Some e"
      "s' = s\<lparr>trace := trace s @ [Op i (Publish up (data s) False)],
               tasks := (tasks s)[i := (tasks s ! i)\<lparr>pub := PubFailed (errors_New ErrFailedOperation e)\<rparr>]\<rparr>"
  | (reported) e c where "i < length (tasks s)" "pub (tasks s ! i) = PubFailed e"
      "chan_send (cherr s) e = Sent c"
      "s' = wg_Done (s\<lparr>cherr := c, trace := trace s @ [Op i (SendErr e)],
                        tasks := (tasks s)[i := (tasks s ! i)\<lparr>pub := PubDone\<rparr>]\<rparr>)"
  | (report_panics) e where "i < length (tasks s)" "pub (tasks s ! i) = PubFailed e"
      "chan_send (cherr s) e = SendPanics" "s' = s\<lparr>panicked := True\<rparr>"
  using assms
  by (auto simp: pub_step_def Let_def split: if_splits pub_pc.splits recipient.splits
        option.splits sent.splits)

lemma recv_stepE:
  assumes "recv_step i s = Some s'"
  obtains
    (received) m c where "i < length (tasks s)" "col (tasks s ! i) = ColSelect"
      "chan_recv (chdown (tasks s ! i)) = Received m c"
      "s' = s\<lparr>tasks := (tasks s)[i := (tasks s ! i)\<lparr>col := ColForward m, chdown := c\<rparr>]\<rparr>"
  | (closed) "i < length (tasks s)" "col (tasks s ! i) = ColSelect"
      "chan_recv (chdown (tasks s ! i)) = RecvClosed"
      "s' = s\<lparr>tasks := (tasks s)[i := (tasks s ! i)\<lparr>col := ColCleanup\<rparr>]\<rparr>"
  using assms
  by (auto simp: recv_step_def Let_def split: if_splits col_pc.splits received.splits)

lemma timeout_stepE:
  assumes "timeout_step i s = Some s'"
  obtains "i < length (tasks s)" "col (tasks s ! i) = ColSelect"
      "s' = s\<lparr>tasks := (tasks s)[i := (tasks s ! i)\<lparr>col := ColCleanup\<rparr>]\<rparr>"
  using assms
  by (auto simp: timeout_step_def Let_def split: if_splits col_pc.splits)

lemma col_stepE:
  assumes "col_step i s = Some s'"
  obtains
    (forwarded) m c where "i < length (tasks s)" "col (tasks s ! i) = ColForward m"
      "chan_send (chresp s) m = Sent c"
      "s' = s\<lparr>chresp := c, trace := trace s @ [Op i (SendResp m)],
               tasks := (tasks s)[i := (tasks s ! i)\<lparr>col := ColCleanup\<rparr>]\<rparr>"
  | (forward_panics) m where "i < length (tasks s)" "col (tasks s ! i) = ColForward m"
      "chan_send (chresp s) m = SendPanics" "s' = s\<lparr>panicked := True\<rparr>"
  | (unsubscribed) up down where "i < length (tasks s)" "col (tasks s ! i) = ColCleanup"
      "rcp (tasks s ! i) = MqttRecipient up down" "unsub_err (env (tasks s ! i)) = None"
      "s' = wg_Done (s\<lparr>trace := trace s @ [Op i (Unsubscribe down True)],
                        tasks := (tasks s)[i := (tasks s ! i)\<lparr>col := ColDone, subscribed := False\<rparr>]\<rparr>)"
  | (unsub_failed) up down e where "i < length (tasks s)" "col (tasks s ! i) = ColCleanup"
      "rcp (tasks s ! i) = MqttRecipient up down" "unsub_err (env (tasks s ! i)) = Some e"
      "s' = wg_Done (s\<lparr>trace := trace s @ [Op i (Unsubscribe down False)],
                        tasks := (tasks s)[i := (tasks s ! i)\<lparr>col := ColDone\<rparr>]\<rparr>)"
  using assms
  by (auto simp: col_step_def Let_def split: if_splits col_pc.splits recipient.splits
        option.splits sent.splits)

lemma deliver_stepE:
  assumes "deliver_step i s = Some s'"
  obtains
    (handed) m ms c where "i < length (tasks s)" "subscribed (tasks s ! i)"
      "pending (tasks s ! i) = m # ms"
      "chan_send (chdown (tasks s ! i)) m = Sent c \<or> chan_send (chdown (tasks s ! i)) m = Parked c"
      "s' = s\<lparr>tasks := (tasks s)[i := (tasks s ! i)\<lparr>chdown := c, pending := ms\<rparr>]\<rparr>"
  | (deliver_panics) m ms where "i < length (tasks s)" "subscribed (tasks s ! i)"
      "pending (tasks s ! i) = m # ms"
      "chan_send (chdown (tasks s ! i)) m = SendPanics" "s' = s\<lparr>panicked := True\<rparr>"
  using assms
  by (auto simp: deliver_step_def Let_def split: if_splits list.splits sent.splits)

subsection \<open>Sums over the slots\<close>

lemma tally_Nil [simp]: "tally f [] = 0"
  by (simp add: tally_def)

lemma tally_snoc [simp]: "tally f (xs @ [x]) = tally f xs + f x"
  by (simp add: tally_def)

lemma tally_Cons [simp]: "tally f (x # xs) = f x + tally f xs"
  by (simp add: tally_def)

lemma tally_update:
  "i < length xs \<Longrightarrow> tally f (xs[i := y]) + f (xs ! i) = tally f xs + f y"
proof (induction xs arbitrary: i)
  case Nil
  then show ?case by simp
next
  case (Cons x xs)
  then show ?case by (cases i) auto
qed

lemma tally_bound_nth:
  "\<forall>x \<in> set xs. f x \<le> c \<Longrightarrow> i < length xs \<Longrightarrow> tally f xs + c \<le> c * length xs + f (xs ! i)"
proof (induction xs arbitrary: i)
  case Nil
  then show ?case by simp
next
  case (Cons x xs)
  show ?case
  proof (cases i)
    case 0
    have "tally f xs \<le> c * length xs"
      using Cons.prems(1)
    proof (induction xs)
      case Nil
      then show ?case by simp
    next
      case (Cons y ys)
      then have "f y \<le> c" "tally f ys \<le> c * length ys" by auto
      then show ?case by simp
    qed
    with 0 show ?thesis by simp
  next
    case (Suc j)
    with Cons.prems have "tally f xs + c \<le> c * length xs + f (xs ! j)" "f x \<le> c"
      using Cons.IH [of j] by auto
    with Suc show ?thesis by simp
  qed
qed

lemma tally_ge_nth: "i < length xs \<Longrightarrow> f (xs ! i) \<le> tally f xs"
proof (induction xs arbitrary: i)
  case Nil
  then show ?case by simp
next
  case (Cons x xs)
  then show ?case by (cases i) (auto intro: trans_le_add2)
qed

lemma ball_update:
  "\<forall>x \<in> set xs. P x \<Longrightarrow> P y \<Longrightarrow> \<forall>x \<in> set (xs[i := y]). P x"
  using set_update_subset_insert [of xs i y] by auto

lemma finished_le: "finished t \<le> 2"
  by (simp add: finished_def)

subsection \<open>What the invariant gives\<close>

lemma inv_started: "inv s \<Longrightarrow> i < length (tasks s) \<Longrightarrow> started s"
  by (auto simp: inv_def)

lemma inv_task: "inv s \<Longrightarrow> i < length (tasks s) \<Longrightarrow> task_inv (tasks s ! i)"
  by (simp add: inv_def)

lemma inv_wg_pos:
  assumes "inv s" and "i < length (tasks s)" and "finished (tasks s ! i) < 2"
  shows "0 < wg s"
proof -
  have st: "started s" using assms(1,2) by (rule inv_started)
  have "tally finished (tasks s) + 2 \<le> 2 * length (tasks s) + finished (tasks s ! i)"
    using tally_bound_nth [of "tasks s" finished 2 i] assms(2) by (simp add: finished_le)
  with assms(3) have "tally finished (tasks s) < 2 * length (tasks s)" by linarith
  moreover have "length (tasks s) \<le> length (rcpts s)"
    and "wg s + int (tally finished (tasks s)) = 2 * int (length (rcpts s))"
    using assms(1) st by (simp_all add: inv_def)
  ultimately show ?thesis by linarith
qed

lemma inv_not_returned:
  assumes "inv s" and "i < length (tasks s)" and "finished (tasks s ! i) < 2"
  shows "\<not> has_returned (pc s)"
proof
  assume r: "has_returned (pc s)"
  have st: "started s" using assms(1,2) by (rule inv_started)
  with assms(1) have "pc_inv (pc s) s" by (simp add: inv_def)
  with r have "wg s = 0" by (cases "pc s") simp_all
  with inv_wg_pos [OF assms] show False by simp
qed

lemma pc_inv_update:
  assumes "pc_inv p s" and "i < length (tasks s)" and "pub (tasks s ! i) \<noteq> PubNone"
    and "rcpts s' = rcpts s" and "tasks s' = (tasks s)[i := t']"
    and "has_returned p \<Longrightarrow> wg s' = 0"
  shows "pc_inv p s'"
  using assms by (cases p) (auto simp: nth_list_update)

lemma inv_worker:
  assumes i: "inv s" and l: "i < length (tasks s)"
    and sp: "pub (tasks s ! i) \<noteq> PubNone"
    and t': "task_inv t'"
    and same: "rcpts s' = rcpts s" "packet s' = packet s" "pc s' = pc s" "\<not> panicked s'"
    and ts: "tasks s' = (tasks s)[i := t']"
    and fin: "wg s' + int (finished t') = wg s + int (finished (tasks s ! i))"
      "finished (tasks s ! i) \<le> finished t'"
    and ce: "cap (cherr s') = cap (cherr s)" "is_closed (cherr s') = is_closed (cherr s)"
      "length (buf (cherr s')) + owes_err t' \<le> length (buf (cherr s)) + owes_err (tasks s ! i)"
    and cr: "cap (chresp s') = cap (chresp s)" "is_closed (chresp s') = is_closed (chresp s)"
      "length (buf (chresp s')) + owes_resp t' \<le> length (buf (chresp s)) + owes_resp (tasks s ! i)"
  shows "inv s'"
proof -
  have st: "started s" using i l by (rule inv_started)
  then have st': "started s'" using same by (simp add: started_def split: sum.splits)
  from i st have acc:
    "pc_inv (pc s) s" "cap (cherr s) = length (rcpts s)" "cap (chresp s) = length (rcpts s)"
    "wg s + int (tally finished (tasks s)) = 2 * int (length (rcpts s))"
    "length (buf (cherr s)) + tally owes_err (tasks s) + main_owes (pc s) \<le> length (tasks s)"
    "length (buf (chresp s)) + tally owes_resp (tasks s) \<le> length (tasks s)"
    by (simp_all add: inv_def)
  have ret: "wg s' = 0" if r: "has_returned (pc s)"
  proof -
    from r acc(1) have w: "wg s = 0" by (cases "pc s") simp_all
    have "\<not> finished (tasks s ! i) < 2"
      using inv_wg_pos [OF i l] w by auto
    with fin finished_le [of t'] w show ?thesis by linarith
  qed
  have p: "pc_inv (pc s') s'"
    using pc_inv_update [OF acc(1) l sp same(1) ts] ret same(3) by simp
  have tf: "tally finished (tasks s') + finished (tasks s ! i) = tally finished (tasks s) + finished t'"
    and te: "tally owes_err (tasks s') + owes_err (tasks s ! i) = tally owes_err (tasks s) + owes_err t'"
    and tr: "tally owes_resp (tasks s') + owes_resp (tasks s ! i) = tally owes_resp (tasks s) + owes_resp t'"
    using l by (simp_all add: ts tally_update)
  have a1: "wg s' + int (tally finished (tasks s')) = 2 * int (length (rcpts s'))"
    using tf fin(1) acc(4) unfolding same(1) by linarith
  have a2: "length (buf (cherr s')) + tally owes_err (tasks s') + main_owes (pc s') \<le> length (tasks s')"
    using te ce(3) acc(5) same(3) ts by simp
  have a3: "length (buf (chresp s')) + tally owes_resp (tasks s') \<le> length (tasks s')"
    using tr cr(3) acc(6) ts by simp
  have "\<forall>t \<in> set (tasks s). task_inv t" using i by (simp add: inv_def)
  then have b: "\<forall>t \<in> set (tasks s'). task_inv t"
    unfolding ts using t' by (rule ball_update)
  have "length (tasks s) \<le> length (rcpts s)" using i by (simp add: inv_def)
  then have len: "length (tasks s') \<le> length (rcpts s')"
    by (simp add: ts same(1))
  have "is_closed (cherr s) \<longrightarrow> has_returned (pc s)" "is_closed (chresp s) \<longrightarrow> has_returned (pc s)"
    using i by (simp_all add: inv_def)
  then have cl: "is_closed (cherr s') \<longrightarrow> has_returned (pc s')"
    "is_closed (chresp s') \<longrightarrow> has_returned (pc s')"
    by (simp_all add: ce(2) cr(2) same(3))
  have caps: "cap (cherr s') = length (rcpts s')" "cap (chresp s') = length (rcpts s')"
    by (simp_all add: ce(1) cr(1) acc(2,3) same(1))
  show ?thesis
    unfolding inv_def using same(4) len b st' p a1 a2 a3 cl caps
    by blast
qed

lemma send_Sent:
  "chan_send c v = Sent c' \<Longrightarrow>
   c' = c\<lparr>buf := buf c @ [v]\<rparr> \<and> \<not> is_closed c \<and> length (buf c) < cap c"
  by (auto simp: chan_send_def split: if_splits)

lemma send_Parked:
  "chan_send c v = Parked c' \<Longrightarrow>
   c' = c\<lparr>sendq := sendq c @ [v]\<rparr> \<and> \<not> is_closed c \<and> \<not> length (buf c) < cap c"
  by (auto simp: chan_send_def split: if_splits)

lemma send_Panics: "chan_send c v = SendPanics \<Longrightarrow> is_closed c"
  by (auto simp: chan_send_def split: if_splits)

lemma recv_Received: "chan_recv c = Received m c' \<Longrightarrow> is_closed c' = is_closed c"
  by (auto simp: chan_recv_def split: list.splits if_splits)

lemma inv_np: "inv s \<Longrightarrow> \<not> panicked s"
  by (simp add: inv_def)

lemma inv_pub_step:
  assumes "inv s" and "pub_step i s = Some s'"
  shows "inv s'"
  using assms(2)
proof (cases rule: pub_stepE)
  case (published up down)
  have w: "0 < wg s"
    using inv_wg_pos [OF assms(1) published(1)] published(2) by (simp add: finished_def)
  have ti: "task_inv (tasks s ! i)" using assms(1) published(1) by (rule inv_task)
  show ?thesis
    by (rule inv_worker [OF assms(1) published(1), where t' = "(tasks s ! i)\<lparr>pub := PubDone\<rparr>"])
       (use published w ti inv_np [OF assms(1)] in \<open>simp_all add: wg_Done_def task_inv_def finished_def owes_err_def owes_resp_def\<close>)
next
  case (pub_failed up down e)
  have ti: "task_inv (tasks s ! i)" using assms(1) pub_failed(1) by (rule inv_task)
  show ?thesis
    by (rule inv_worker [OF assms(1) pub_failed(1),
          where t' = "(tasks s ! i)\<lparr>pub := PubFailed (errors_New ErrFailedOperation e)\<rparr>"])
       (use pub_failed ti assms(1) inv_np [OF assms(1)] in \<open>simp_all add: task_inv_def finished_def owes_err_def owes_resp_def inv_def\<close>)
next
  case (reported e c)
  have w: "0 < wg s"
    using inv_wg_pos [OF assms(1) reported(1)] reported(2) by (simp add: finished_def)
  have ti: "task_inv (tasks s ! i)" using assms(1) reported(1) by (rule inv_task)
  note c = send_Sent [OF reported(3)]
  show ?thesis
    by (rule inv_worker [OF assms(1) reported(1), where t' = "(tasks s ! i)\<lparr>pub := PubDone\<rparr>"])
       (use reported w ti c inv_np [OF assms(1)] in \<open>simp_all add: wg_Done_def task_inv_def finished_def owes_err_def owes_resp_def\<close>)
next
  case (report_panics e)
  have "\<not> has_returned (pc s)"
    using inv_not_returned [OF assms(1) report_panics(1)] report_panics(2) by (simp add: finished_def)
  moreover have "is_closed (cherr s)" using report_panics(3) by (rule send_Panics)
  ultimately show ?thesis using assms(1) by (simp add: inv_def)
qed

lemma inv_recv_step:
  assumes "inv s" and "recv_step i s = Some s'"
  shows "inv s'"
  using assms(2)
proof (cases rule: recv_stepE)
  case (received m c)
  have ti: "task_inv (tasks s ! i)" using assms(1) received(1) by (rule inv_task)
  note c = recv_Received [OF received(3)]
  show ?thesis
    by (rule inv_worker [OF assms(1) received(1),
          where t' = "(tasks s ! i)\<lparr>col := ColForward m, chdown := c\<rparr>"])
       (use received ti c assms(1) inv_np [OF assms(1)] in \<open>auto simp: task_inv_def finished_def owes_err_def owes_resp_def inv_def\<close>)
next
  case closed
  have ti: "task_inv (tasks s ! i)" using assms(1) closed(1) by (rule inv_task)
  show ?thesis
    by (rule inv_worker [OF assms(1) closed(1), where t' = "(tasks s ! i)\<lparr>col := ColCleanup\<rparr>"])
       (use closed ti assms(1) inv_np [OF assms(1)] in \<open>auto simp: task_inv_def finished_def owes_err_def owes_resp_def inv_def\<close>)
qed

lemma inv_timeout_step:
  assumes "inv s" and "timeout_step i s = Some s'"
  shows "inv s'"
  using assms(2)
proof (cases rule: timeout_stepE)
  case 1
  have ti: "task_inv (tasks s ! i)" using assms(1) 1(1) by (rule inv_task)
  show ?thesis
    by (rule inv_worker [OF assms(1) 1(1), where t' = "(tasks s ! i)\<lparr>col := ColCleanup\<rparr>"])
       (use 1 ti assms(1) inv_np [OF assms(1)] in \<open>auto simp: task_inv_def finished_def owes_err_def owes_resp_def inv_def\<close>)
qed

lemma inv_col_step:
  assumes "inv s" and "col_step i s = Some s'"
  shows "inv s'"
  using assms(2)
proof (cases rule: col_stepE)
  case (forwarded m c)
  have ti: "task_inv (tasks s ! i)" using assms(1) forwarded(1) by (rule inv_task)
  note c = send_Sent [OF forwarded(3)]
  show ?thesis
    by (rule inv_worker [OF assms(1) forwarded(1), where t' = "(tasks s ! i)\<lparr>col := ColCleanup\<rparr>"])
       (use forwarded ti c assms(1) inv_np [OF assms(1)] in \<open>auto simp: task_inv_def finished_def owes_err_def owes_resp_def inv_def\<close>)
next
  case (forward_panics m)
  have "\<not> has_returned (pc s)"
    using inv_not_returned [OF assms(1) forward_panics(1)] forward_panics(2) by (simp add: finished_def)
  moreover have "is_closed (chresp s)" using forward_panics(3) by (rule send_Panics)
  ultimately show ?thesis using assms(1) by (simp add: inv_def)
next
  case (unsubscribed up down)
  have w: "0 < wg s"
    using inv_wg_pos [OF assms(1) unsubscribed(1)] unsubscribed(2) by (simp add: finished_def)
  have ti: "task_inv (tasks s ! i)" using assms(1) unsubscribed(1) by (rule inv_task)
  show ?thesis
    by (rule inv_worker [OF assms(1) unsubscribed(1),
          where t' = "(tasks s ! i)\<lparr>col := ColDone, subscribed := False\<rparr>"])
       (use unsubscribed w ti inv_np [OF assms(1)] in \<open>auto simp: wg_Done_def task_inv_def finished_def owes_err_def owes_resp_def\<close>)
next
  case (unsub_failed up down e)
  have w: "0 < wg s"
    using inv_wg_pos [OF assms(1) unsub_failed(1)] unsub_failed(2) by (simp add: finished_def)
  have ti: "task_inv (tasks s ! i)" using assms(1) unsub_failed(1) by (rule inv_task)
  show ?thesis
    by (rule inv_worker [OF assms(1) unsub_failed(1), where t' = "(tasks s ! i)\<lparr>col := ColDone\<rparr>"])
       (use unsub_failed w ti inv_np [OF assms(1)] in \<open>auto simp: wg_Done_def task_inv_def finished_def owes_err_def owes_resp_def\<close>)
qed

lemma inv_deliver_step:
  assumes "inv s" and "deliver_step i s = Some s'"
  shows "inv s'"
  using assms(2)
proof (cases rule: deliver_stepE)
  case (handed m ms c)
  have ti: "task_inv (tasks s ! i)" using assms(1) handed(1) by (rule inv_task)
  from handed(4) have c: "\<not> is_closed c"
    using send_Sent [of "chdown (tasks s ! i)" m c] send_Parked [of "chdown (tasks s ! i)" m c]
    by auto
  show ?thesis
    by (rule inv_worker [OF assms(1) handed(1),
          where t' = "(tasks s ! i)\<lparr>chdown := c, pending := ms\<rparr>"])
       (use handed(1,2,3,5) ti c assms(1) inv_np [OF assms(1)] in \<open>auto simp: task_inv_def finished_def owes_err_def owes_resp_def inv_def\<close>)
next
  case (deliver_panics m ms)
  have ti: "task_inv (tasks s ! i)" using assms(1) deliver_panics(1) by (rule inv_task)
  moreover have "is_closed (chdown (tasks s ! i))" using deliver_panics(4) by (rule send_Panics)
  ultimately show ?thesis using deliver_panics(2) by (simp add: task_inv_def)
qed

lemma inv_pc_started: "inv s \<Longrightarrow> pc s = AtLoop k \<or> pc s = AtRecord k e c \<or> pc s = AtWait \<Longrightarrow> started s"
  by (auto simp: inv_def)

lemma started_pc:
  "started s \<Longrightarrow> packet s' = packet s \<Longrightarrow> pc s' \<noteq> AtMarshal \<Longrightarrow> started s'"
  by (simp add: started_def split: sum.splits)

lemma inv_push:
  assumes i: "inv s" and at: "pc s = AtLoop k" and k: "k < length (rcpts s)"
    and t: "task_inv t" "finished t = 0" "owes_resp t \<le> 1"
      "owes_err t + main_owes (pc s') \<le> 1"
    and same: "rcpts s' = rcpts s" "packet s' = packet s" "\<not> panicked s'" "wg s' = wg s"
      "cherr s' = cherr s" "chresp s' = chresp s"
    and ts: "tasks s' = tasks s @ [t]"
    and p: "pc s' \<noteq> AtMarshal" "pc_inv (pc s') s'"
  shows "inv s'"
proof -
  have st: "started s" using i at inv_pc_started by blast
  then have st': "started s'" using same(2) p(1) by (rule started_pc)
  from i st at have acc:
    "length (tasks s) = k" "cap (cherr s) = length (rcpts s)" "cap (chresp s) = length (rcpts s)"
    "wg s + int (tally finished (tasks s)) = 2 * int (length (rcpts s))"
    "length (buf (cherr s)) + tally owes_err (tasks s) \<le> length (tasks s)"
    "length (buf (chresp s)) + tally owes_resp (tasks s) \<le> length (tasks s)"
    by (simp_all add: inv_def)
  have "\<forall>x \<in> set (tasks s). task_inv x" using i by (simp add: inv_def)
  then have b: "\<forall>x \<in> set (tasks s'). task_inv x" using t(1) by (simp add: ts)
  have len: "length (tasks s') \<le> length (rcpts s')" using acc(1) k by (simp add: ts same(1))
  have caps: "cap (cherr s') = length (rcpts s')" "cap (chresp s') = length (rcpts s')"
    by (simp_all add: same acc(2,3))
  have a1: "wg s' + int (tally finished (tasks s')) = 2 * int (length (rcpts s'))"
    using acc(4) t(2) by (simp add: ts same)
  have a2: "length (buf (cherr s')) + tally owes_err (tasks s') + main_owes (pc s') \<le> length (tasks s')"
    using acc(5) t(4) by (simp add: ts same)
  have a3: "length (buf (chresp s')) + tally owes_resp (tasks s') \<le> length (tasks s')"
    using acc(6) t(3) by (simp add: ts same)
  have "\<not> is_closed (cherr s)" "\<not> is_closed (chresp s)" using i at by (auto simp: inv_def)
  then have cl: "is_closed (cherr s') \<longrightarrow> has_returned (pc s')"
    "is_closed (chresp s') \<longrightarrow> has_returned (pc s')"
    by (simp_all add: same)
  show ?thesis
    unfolding inv_def using same(3) len b st' p(2) a1 a2 a3 cl caps by blast
qed

lemma inv_main_step:
  assumes "inv s" and "main_step s = Some s'"
  shows "inv s'"
  using assms(2)
proof (cases rule: main_stepE)
  case (bad_packet e)
  then have "\<not> started s" by (simp add: started_def)
  with assms(1) bad_packet show ?thesis
    by (simp add: inv_def started_def)
next
  case (marshalled d)
  then have "\<not> started s" by (simp add: started_def)
  with assms(1) marshalled show ?thesis
    by (simp add: inv_def started_def make_chan_def)
next
  case (not_mqtt k t)
  have st: "started s" using assms(1) not_mqtt(1) inv_pc_started by blast
  with assms(1) not_mqtt(1) have l: "length (tasks s) = k" by (simp add: inv_def)
  show ?thesis
    by (rule inv_push [OF assms(1) not_mqtt(1,2), where t = "skipped_task OtherRecipient t"])
       (use not_mqtt l inv_np [OF assms(1)] in
         \<open>simp_all add: nth_append skipped_task_def task_inv_def finished_def owes_err_def owes_resp_def\<close>)
next
  case (sub_failed k up down t e)
  have st: "started s" using assms(1) sub_failed(1) inv_pc_started by blast
  with assms(1) sub_failed(1) have l: "length (tasks s) = k" by (simp add: inv_def)
  show ?thesis
    by (rule inv_push [OF assms(1) sub_failed(1,2),
          where t = "skipped_task (MqttRecipient up down) t"])
       (use sub_failed l inv_np [OF assms(1)] in
         \<open>simp_all add: nth_append skipped_task_def task_inv_def finished_def owes_err_def owes_resp_def\<close>)
next
  case (spawned k up down t)
  have st: "started s" using assms(1) spawned(1) inv_pc_started by blast
  with assms(1) spawned(1) have l: "length (tasks s) = k" by (simp add: inv_def)
  show ?thesis
    by (rule inv_push [OF assms(1) spawned(1,2),
          where t = "spawned_task (MqttRecipient up down) t"])
       (use spawned l inv_np [OF assms(1)] in
         \<open>simp_all add: nth_append spawned_task_def task_inv_def finished_def owes_err_def owes_resp_def
            make_chan_def\<close>)
next
  case (loop_end k)
  have st: "started s" using assms(1) loop_end(1) inv_pc_started by blast
  then have st': "started s'" using loop_end by (simp add: started_def split: sum.splits)
  from assms(1) st loop_end st' show ?thesis
    by (simp add: inv_def)
next
  case (recorded k e closing c)
  have st: "started s" using assms(1) recorded(1) inv_pc_started by blast
  then have st': "started s'" using recorded by (simp add: started_def split: sum.splits)
  note c = send_Sent [OF recorded(2)]
  from assms(1) st recorded(1) have k: "length (tasks s) = Suc k" "pub (tasks s ! k) = PubNone"
    by (simp_all add: inv_def)
  then have tk: "task_inv (tasks s ! k)" using assms(1) by (simp add: inv_def)
  let ?t = "(tasks s ! k)\<lparr>chdown := chan_close (chdown (tasks s ! k))\<rparr>"
  have t': "task_inv ?t" using tk k(2) by (simp add: task_inv_def)
  have same: "finished ?t = finished (tasks s ! k)" "owes_err ?t = owes_err (tasks s ! k)"
    "owes_resp ?t = owes_resp (tasks s ! k)"
    by (simp_all add: finished_def owes_err_def owes_resp_def)
  have tl: "tally finished ((tasks s)[k := ?t]) = tally finished (tasks s)"
    "tally owes_err ((tasks s)[k := ?t]) = tally owes_err (tasks s)"
    "tally owes_resp ((tasks s)[k := ?t]) = tally owes_resp (tasks s)"
    using tally_update [of k "tasks s" finished ?t] tally_update [of k "tasks s" owes_err ?t]
      tally_update [of k "tasks s" owes_resp ?t] k(1) same by simp_all
  have b: "\<forall>t \<in> set ((tasks s)[k := ?t]). task_inv t"
    using assms(1) t' by (intro ball_update) (simp_all add: inv_def)
  from assms(1) st recorded(1,3) st' c k tl b show ?thesis
    by (simp add: inv_def)
next
  case (record_panics k e closing)
  have "is_closed (cherr s)" using record_panics(2) by (rule send_Panics)
  with assms(1) record_panics(1) show ?thesis by (simp add: inv_def)
next
  case close_panics
  with assms(1) show ?thesis by (auto simp: inv_def)
next
  case joined
  have st: "started s" using assms(1) joined(1) inv_pc_started by blast
  then have st': "started s'" using joined by (simp add: started_def split: sum.splits)
  from assms(1) st joined st' show ?thesis
    by (simp add: inv_def chan_close_def)
qed

lemma inv_step: "inv s \<Longrightarrow> step a s = Some s' \<Longrightarrow> inv s'"
  by (cases a)
     (auto simp: step_def split: if_splits
        intro: inv_main_step inv_pub_step inv_recv_step inv_timeout_step inv_col_step inv_deliver_step)

lemma inv_init: "inv (init p rs)"
  by (simp add: inv_def init_def started_def make_chan_def split: sum.splits)

lemma inv_exec: "inv s \<Longrightarrow> inv (exec sched s)"
proof (induction sched arbitrary: s)
  case Nil
  then show ?case by simp
next
  case (Cons a sched)
  show ?case
  proof (cases "step a s")
    case None
    with Cons show ?thesis by simp
  next
    case (Some s')
    from Cons.prems Some have "inv s'" by (rule inv_step)
    with Cons.IH Some show ?thesis by simp
  qed
qed

lemma inv_run: "inv (run sched p rs)"
  unfolding run_def by (rule inv_exec) (rule inv_init)

subsection \<open>The operations per recipient\<close>

lemma ops_append [simp]: "ops i (xs @ ys) = ops i xs @ ops i ys"
  by (induction i xs rule: ops.induct) simp_all

lemma cnt_Nil [simp]: "cnt P [] = 0"
  by (simp add: cnt_def)

lemma cnt_Cons [simp]: "cnt P (x # xs) = of_bool (P x) + cnt P xs"
  by (simp add: cnt_def)

lemma cnt_append [simp]: "cnt P (xs @ ys) = cnt P xs + cnt P ys"
  by (simp add: cnt_def)

lemma record_inv_update:
  "record_inv p s \<Longrightarrow> tasks s' = (tasks s)[i := t'] \<Longrightarrow> rcp t' = rcp (tasks s ! i) \<Longrightarrow>
   i < length (tasks s) \<Longrightarrow> record_inv p s'"
  by (cases p) (auto simp: nth_list_update)

lemma record_inv_tasks: "tasks s' = tasks s \<Longrightarrow> record_inv p s' = record_inv p s"
  by (cases p) simp_all

lemma inv_ops_panicked: "inv_ops (s\<lparr>panicked := b\<rparr>) = inv_ops s"
  using record_inv_tasks [of "s\<lparr>panicked := b\<rparr>" s "pc s"] by (simp add: inv_ops_def)

lemma inv_ops_worker:
  assumes io: "inv_ops s" and l: "i < length (tasks s)"
    and same: "rcpts s' = rcpts s" "pc s' = pc s"
    and ts: "tasks s' = (tasks s)[i := t']"
    and tr: "trace s' = trace s @ evs" "\<forall>j. j \<noteq> i \<longrightarrow> ops j evs = []"
    and t': "rcp t' = rcp (tasks s ! i)" "env t' = env (tasks s ! i)"
    and ok: "ops_ok (recording (pc s) i) t' (ops i (trace s) @ ops i evs)"
  shows "inv_ops s'"
proof -
  have r: "record_inv (pc s') s'"
    using io record_inv_update [OF _ ts t'(1) l, of "pc s"] by (simp add: inv_ops_def same)
  have a: "(rcp (tasks s' ! j), env (tasks s' ! j)) = rcpts s' ! j \<and>
           ops_ok (recording (pc s') j) (tasks s' ! j) (ops j (trace s'))"
    if j: "j < length (tasks s')" for j
  proof (cases "j = i")
    case True
    from io l have "(rcp (tasks s ! i), env (tasks s ! i)) = rcpts s ! i"
      by (simp add: inv_ops_def)
    with True l ok t' show ?thesis by (simp add: ts tr same)
  next
    case False
    from j have "j < length (tasks s)" by (simp add: ts)
    with io have "(rcp (tasks s ! j), env (tasks s ! j)) = rcpts s ! j \<and>
        ops_ok (recording (pc s) j) (tasks s ! j) (ops j (trace s))"
      by (simp add: inv_ops_def)
    with False tr(2) show ?thesis by (simp add: ts tr(1) same)
  qed
  have b: "ops j (trace s') = []" if j: "length (tasks s') \<le> j" for j
  proof -
    from j l have "j \<noteq> i" "length (tasks s) \<le> j" by (simp_all add: ts)
    with io tr(2) show ?thesis by (simp add: inv_ops_def tr(1))
  qed
  from r a b show ?thesis unfolding inv_ops_def by blast
qed

lemma inv_ops_spawned:
  assumes "inv s" and "inv_ops s" and "i < length (tasks s)" and "pub (tasks s ! i) \<noteq> PubNone"
  obtains up down where "rcp (tasks s ! i) = MqttRecipient up down"
    and "ops_ok False (tasks s ! i) (ops i (trace s))" and "\<not> recording (pc s) i"
proof -
  from assms(2,3) have ok: "ops_ok (recording (pc s) i) (tasks s ! i) (ops i (trace s))"
    by (simp add: inv_ops_def)
  with assms(4) have nr: "\<not> recording (pc s) i"
    by (auto simp: ops_ok_def split: recipient.splits)
  from ok assms(4) obtain up down where "rcp (tasks s ! i) = MqttRecipient up down"
    by (cases "rcp (tasks s ! i)") (auto simp: ops_ok_def)
  with ok nr that show ?thesis by simp
qed

lemma task_inv_col: "task_inv t \<Longrightarrow> col t \<noteq> ColNone \<Longrightarrow> pub t \<noteq> PubNone"
  by (simp add: task_inv_def)

lemma ops_ok_same:
  "rcp t' = rcp t \<Longrightarrow> env t' = env t \<Longrightarrow> pub t' = pub t \<Longrightarrow> col t' = col t \<Longrightarrow>
   ops_ok r t' os = ops_ok r t os"
  by (cases "rcp t") (simp_all add: ops_ok_def)

lemma inv_ops_pub_step:
  assumes "inv s" and "inv_ops s" and "pub_step i s = Some s'"
  shows "inv_ops s'"
  using assms(3)
proof (cases rule: pub_stepE)
  case (published up down)
  have w: "0 < wg s"
    using inv_wg_pos [OF assms(1) published(1)] published(2) by (simp add: finished_def)
  from published(2) have sp: "pub (tasks s ! i) \<noteq> PubNone" by simp
  from inv_ops_spawned [OF assms(1,2) published(1) sp] obtain up' down'
    where o: "rcp (tasks s ! i) = MqttRecipient up' down'"
      "ops_ok False (tasks s ! i) (ops i (trace s))" "\<not> recording (pc s) i"
    by blast
  show ?thesis
    by (rule inv_ops_worker [OF assms(2) published(1), where t' = "(tasks s ! i)\<lparr>pub := PubDone\<rparr>"
          and evs = "[Op i (Publish up (data s) True)]"])
       (use published w o in \<open>auto simp: wg_Done_def ops_ok_def\<close>)
next
  case (pub_failed up down e)
  from pub_failed(2) have sp: "pub (tasks s ! i) \<noteq> PubNone" by simp
  from inv_ops_spawned [OF assms(1,2) pub_failed(1) sp] obtain up' down'
    where o: "rcp (tasks s ! i) = MqttRecipient up' down'"
      "ops_ok False (tasks s ! i) (ops i (trace s))" "\<not> recording (pc s) i"
    by blast
  show ?thesis
    by (rule inv_ops_worker [OF assms(2) pub_failed(1),
          where t' = "(tasks s ! i)\<lparr>pub := PubFailed (errors_New ErrFailedOperation e)\<rparr>"
          and evs = "[Op i (Publish up (data s) False)]"])
       (use pub_failed o in \<open>auto simp: ops_ok_def\<close>)
next
  case (reported e c)
  have w: "0 < wg s"
    using inv_wg_pos [OF assms(1) reported(1)] reported(2) by (simp add: finished_def)
  from reported(2) have sp: "pub (tasks s ! i) \<noteq> PubNone" by simp
  from inv_ops_spawned [OF assms(1,2) reported(1) sp] obtain up' down'
    where o: "rcp (tasks s ! i) = MqttRecipient up' down'"
      "ops_ok False (tasks s ! i) (ops i (trace s))" "\<not> recording (pc s) i"
    by blast
  show ?thesis
    by (rule inv_ops_worker [OF assms(2) reported(1), where t' = "(tasks s ! i)\<lparr>pub := PubDone\<rparr>"
          and evs = "[Op i (SendErr e)]"])
       (use reported w o in \<open>auto simp: wg_Done_def ops_ok_def\<close>)
next
  case (report_panics e)
  with assms(2) show ?thesis by (simp add: inv_ops_panicked)
qed

lemma inv_ops_recv_step:
  assumes "inv s" and "inv_ops s" and "recv_step i s = Some s'"
  shows "inv_ops s'"
  using assms(3)
proof (cases rule: recv_stepE)
  case (received m c)
  have sp: "pub (tasks s ! i) \<noteq> PubNone"
    using inv_task [OF assms(1) received(1)] received(2) by (simp add: task_inv_def)
  from inv_ops_spawned [OF assms(1,2) received(1) sp] obtain up' down'
    where o: "rcp (tasks s ! i) = MqttRecipient up' down'"
      "ops_ok False (tasks s ! i) (ops i (trace s))" "\<not> recording (pc s) i"
    by blast
  show ?thesis
    by (rule inv_ops_worker [OF assms(2) received(1),
          where t' = "(tasks s ! i)\<lparr>col := ColForward m, chdown := c\<rparr>" and evs = "[]"])
       (use received o sp in \<open>auto simp: ops_ok_def\<close>)
next
  case closed
  have sp: "pub (tasks s ! i) \<noteq> PubNone"
    using inv_task [OF assms(1) closed(1)] closed(2) by (simp add: task_inv_def)
  from inv_ops_spawned [OF assms(1,2) closed(1) sp] obtain up' down'
    where o: "rcp (tasks s ! i) = MqttRecipient up' down'"
      "ops_ok False (tasks s ! i) (ops i (trace s))" "\<not> recording (pc s) i"
    by blast
  show ?thesis
    by (rule inv_ops_worker [OF assms(2) closed(1),
          where t' = "(tasks s ! i)\<lparr>col := ColCleanup\<rparr>" and evs = "[]"])
       (use closed o sp in \<open>auto simp: ops_ok_def\<close>)
qed

lemma inv_ops_timeout_step:
  assumes "inv s" and "inv_ops s" and "timeout_step i s = Some s'"
  shows "inv_ops s'"
  using assms(3)
proof (cases rule: timeout_stepE)
  case 1
  have sp: "pub (tasks s ! i) \<noteq> PubNone"
    using inv_task [OF assms(1) 1(1)] 1(2) by (simp add: task_inv_def)
  from inv_ops_spawned [OF assms(1,2) 1(1) sp] obtain up' down'
    where o: "rcp (tasks s ! i) = MqttRecipient up' down'"
      "ops_ok False (tasks s ! i) (ops i (trace s))" "\<not> recording (pc s) i"
    by blast
  show ?thesis
    by (rule inv_ops_worker [OF assms(2) 1(1),
          where t' = "(tasks s ! i)\<lparr>col := ColCleanup\<rparr>" and evs = "[]"])
       (use 1 o sp in \<open>auto simp: ops_ok_def\<close>)
qed

lemma inv_ops_col_step:
  assumes "inv s" and "inv_ops s" and "col_step i s = Some s'"
  shows "inv_ops s'"
  using assms(3)
proof (cases rule: col_stepE)
  case (forwarded m c)
  have sp: "pub (tasks s ! i) \<noteq> PubNone"
    using inv_task [OF assms(1) forwarded(1)] forwarded(2) by (simp add: task_inv_def)
  from inv_ops_spawned [OF assms(1,2) forwarded(1) sp] obtain up' down'
    where o: "rcp (tasks s ! i) = MqttRecipient up' down'"
      "ops_ok False (tasks s ! i) (ops i (trace s))" "\<not> recording (pc s) i"
    by blast
  show ?thesis
    by (rule inv_ops_worker [OF assms(2) forwarded(1),
          where t' = "(tasks s ! i)\<lparr>col := ColCleanup\<rparr>" and evs = "[Op i (SendResp m)]"])
       (use forwarded o sp in \<open>auto simp: ops_ok_def\<close>)
next
  case (forward_panics m)
  with assms(2) show ?thesis by (simp add: inv_ops_panicked)
next
  case (unsubscribed up down)
  have w: "0 < wg s"
    using inv_wg_pos [OF assms(1) unsubscribed(1)] unsubscribed(2) by (simp add: finished_def)
  have sp: "pub (tasks s ! i) \<noteq> PubNone"
    using inv_task [OF assms(1) unsubscribed(1)] unsubscribed(2) by (simp add: task_inv_def)
  from inv_ops_spawned [OF assms(1,2) unsubscribed(1) sp] obtain up' down'
    where o: "rcp (tasks s ! i) = MqttRecipient up' down'"
      "ops_ok False (tasks s ! i) (ops i (trace s))" "\<not> recording (pc s) i"
    by blast
  show ?thesis
    by (rule inv_ops_worker [OF assms(2) unsubscribed(1),
          where t' = "(tasks s ! i)\<lparr>col := ColDone, subscribed := False\<rparr>"
          and evs = "[Op i (Unsubscribe down True)]"])
       (use unsubscribed w o sp in \<open>auto simp: wg_Done_def ops_ok_def\<close>)
next
  case (unsub_failed up down e)
  have w: "0 < wg s"
    using inv_wg_pos [OF assms(1) unsub_failed(1)] unsub_failed(2) by (simp add: finished_def)
  have sp: "pub (tasks s ! i) \<noteq> PubNone"
    using inv_task [OF assms(1) unsub_failed(1)] unsub_failed(2) by (simp add: task_inv_def)
  from inv_ops_spawned [OF assms(1,2) unsub_failed(1) sp] obtain up' down'
    where o: "rcp (tasks s ! i) = MqttRecipient up' down'"
      "ops_ok False (tasks s ! i) (ops i (trace s))" "\<not> recording (pc s) i"
    by blast
  show ?thesis
    by (rule inv_ops_worker [OF assms(2) unsub_failed(1),
          where t' = "(tasks s ! i)\<lparr>col := ColDone\<rparr>"
          and evs = "[Op i (Unsubscribe down False)]"])
       (use unsub_failed w o sp in \<open>auto simp: wg_Done_def ops_ok_def\<close>)
qed

lemma inv_ops_deliver_step:
  assumes "inv s" and "inv_ops s" and "deliver_step i s = Some s'"
  shows "inv_ops s'"
  using assms(3)
proof (cases rule: deliver_stepE)
  case (handed m ms c)
  have sp: "pub (tasks s ! i) \<noteq> PubNone"
    using inv_task [OF assms(1) handed(1)] handed(2) by (auto simp: task_inv_def)
  from inv_ops_spawned [OF assms(1,2) handed(1) sp] obtain up' down'
    where o: "rcp (tasks s ! i) = MqttRecipient up' down'"
      "ops_ok False (tasks s ! i) (ops i (trace s))" "\<not> recording (pc s) i"
    by blast
  let ?t = "(tasks s ! i)\<lparr>chdown := c, pending := ms\<rparr>"
  have same: "ops_ok False ?t (ops i (trace s)) = ops_ok False (tasks s ! i) (ops i (trace s))"
    by (rule ops_ok_same) simp_all
  show ?thesis
  proof (rule inv_ops_worker [OF assms(2) handed(1)])
    show "rcpts s' = rcpts s" "pc s' = pc s" "tasks s' = (tasks s)[i := ?t]"
      "trace s' = trace s @ []"
      by (simp_all add: handed(5))
    show "\<forall>j. j \<noteq> i \<longrightarrow> ops j [] = []" by simp
    show "rcp ?t = rcp (tasks s ! i)" "env ?t = env (tasks s ! i)" by simp_all
    show "ops_ok (recording (pc s) i) ?t (ops i (trace s) @ ops i [])"
      using o(2,3) same by simp
  qed
next
  case (deliver_panics m ms)
  with assms(2) show ?thesis by (simp add: inv_ops_panicked)
qed

lemma inv_ops_frame:
  assumes io: "inv_ops s"
    and same: "rcpts s' = rcpts s" "tasks s' = tasks s"
    and tr: "\<forall>j. ops j (trace s') = ops j (trace s)"
    and rc: "\<forall>j. recording (pc s') j = recording (pc s) j"
    and r: "record_inv (pc s') s'"
  shows "inv_ops s'"
  using io r unfolding inv_ops_def by (simp add: same tr rc)

lemma inv_ops_push:
  assumes io: "inv_ops s" and k: "k = length (tasks s)"
    and same: "rcpts s' = rcpts s"
    and ts: "tasks s' = tasks s @ [t]"
    and tr: "trace s' = trace s @ evs" "\<forall>j. j \<noteq> k \<longrightarrow> ops j evs = []"
    and t: "(rcp t, env t) = rcpts s ! k"
    and ok: "ops_ok (recording (pc s') k) t (ops k evs)"
    and rc: "\<forall>j. j \<noteq> k \<longrightarrow> recording (pc s') j = recording (pc s) j"
    and r: "record_inv (pc s') s'"
  shows "inv_ops s'"
proof -
  have a: "(rcp (tasks s' ! j), env (tasks s' ! j)) = rcpts s' ! j \<and>
           ops_ok (recording (pc s') j) (tasks s' ! j) (ops j (trace s'))"
    if j: "j < length (tasks s')" for j
  proof (cases "j = k")
    case True
    from io k have "ops k (trace s) = []" by (simp add: inv_ops_def)
    with True k t ok show ?thesis by (simp add: ts tr(1) same)
  next
    case False
    with j k have l: "j < length (tasks s)" by (simp add: ts)
    with io have "(rcp (tasks s ! j), env (tasks s ! j)) = rcpts s ! j \<and>
        ops_ok (recording (pc s) j) (tasks s ! j) (ops j (trace s))"
      by (simp add: inv_ops_def)
    with False l tr(2) rc show ?thesis by (simp add: ts tr(1) same nth_append)
  qed
  have b: "ops j (trace s') = []" if j: "length (tasks s') \<le> j" for j
  proof -
    from j k have "j \<noteq> k" "length (tasks s) \<le> j" by (simp_all add: ts)
    with io tr(2) show ?thesis by (simp add: inv_ops_def tr(1))
  qed
  from r a b show ?thesis unfolding inv_ops_def by blast
qed

lemma inv_ops_update:
  assumes io: "inv_ops s" and l: "i < length (tasks s)"
    and same: "rcpts s' = rcpts s"
    and ts: "tasks s' = (tasks s)[i := t']"
    and tr: "trace s' = trace s @ evs" "\<forall>j. j \<noteq> i \<longrightarrow> ops j evs = []"
    and t': "rcp t' = rcp (tasks s ! i)" "env t' = env (tasks s ! i)"
    and ok: "ops_ok (recording (pc s') i) t' (ops i (trace s) @ ops i evs)"
    and rc: "\<forall>j. j \<noteq> i \<longrightarrow> recording (pc s') j = recording (pc s) j"
    and r: "record_inv (pc s') s'"
  shows "inv_ops s'"
proof -
  have a: "(rcp (tasks s' ! j), env (tasks s' ! j)) = rcpts s' ! j \<and>
           ops_ok (recording (pc s') j) (tasks s' ! j) (ops j (trace s'))"
    if j: "j < length (tasks s')" for j
  proof (cases "j = i")
    case True
    from io l have "(rcp (tasks s ! i), env (tasks s ! i)) = rcpts s ! i"
      by (simp add: inv_ops_def)
    with True l ok t' show ?thesis by (simp add: ts tr same)
  next
    case False
    from j have "j < length (tasks s)" by (simp add: ts)
    with io have "(rcp (tasks s ! j), env (tasks s ! j)) = rcpts s ! j \<and>
        ops_ok (recording (pc s) j) (tasks s ! j) (ops j (trace s))"
      by (simp add: inv_ops_def)
    with False tr(2) rc show ?thesis by (simp add: ts tr(1) same)
  qed
  have b: "ops j (trace s') = []" if j: "length (tasks s') \<le> j" for j
  proof -
    from j l have "j \<noteq> i" "length (tasks s) \<le> j" by (simp_all add: ts)
    with io tr(2) show ?thesis by (simp add: inv_ops_def tr(1))
  qed
  from r a b show ?thesis unfolding inv_ops_def by blast
qed

lemma ops_ok_recorded:
  assumes "ops_ok True t os" and "pub t = PubNone"
    and "rcp t' = rcp t" "env t' = env t" "pub t' = pub t" "col t' = col t"
  shows "ops_ok False t' (os @ [SendErr (skip_error (rcp t))])"
  using assms by (cases "rcp t") (simp_all add: ops_ok_def)

lemma inv_ops_main_step:
  assumes "inv s" and "inv_ops s" and "main_step s = Some s'"
  shows "inv_ops s'"
  using assms(3)
proof (cases rule: main_stepE)
  case (bad_packet e)
  show ?thesis
    by (rule inv_ops_frame [OF assms(2)]) (simp_all add: bad_packet)
next
  case (marshalled d)
  show ?thesis
    by (rule inv_ops_frame [OF assms(2)]) (simp_all add: marshalled)
next
  case (not_mqtt k t)
  have st: "started s" using assms(1) not_mqtt(1) inv_pc_started by blast
  with assms(1) not_mqtt(1) have l: "k = length (tasks s)" by (simp add: inv_def)
  show ?thesis
    by (rule inv_ops_push [OF assms(2) l, where t = "skipped_task OtherRecipient t" and evs = "[]"])
       (use not_mqtt l in \<open>simp_all add: skipped_task_def ops_ok_def\<close>)
next
  case (sub_failed k up down t e)
  have st: "started s" using assms(1) sub_failed(1) inv_pc_started by blast
  with assms(1) sub_failed(1) have l: "k = length (tasks s)" by (simp add: inv_def)
  show ?thesis
    by (rule inv_ops_push [OF assms(2) l, where t = "skipped_task (MqttRecipient up down) t"
          and evs = "[Op k (Subscribe down False)]"])
       (use sub_failed l in \<open>simp_all add: skipped_task_def ops_ok_def\<close>)
next
  case (spawned k up down t)
  have st: "started s" using assms(1) spawned(1) inv_pc_started by blast
  with assms(1) spawned(1) have l: "k = length (tasks s)" by (simp add: inv_def)
  show ?thesis
    by (rule inv_ops_push [OF assms(2) l, where t = "spawned_task (MqttRecipient up down) t"
          and evs = "[Op k (Subscribe down True)]"])
       (use spawned l in \<open>simp_all add: spawned_task_def ops_ok_def\<close>)
next
  case (loop_end k)
  show ?thesis
    by (rule inv_ops_frame [OF assms(2)]) (simp_all add: loop_end)
next
  case (recorded k e closing c)
  have st: "started s" using assms(1) recorded(1) inv_pc_started by blast
  from assms(1) st recorded(1) have k: "length (tasks s) = Suc k" "pub (tasks s ! k) = PubNone"
    by (simp_all add: inv_def)
  from assms(2) recorded(1) have e: "e = skip_error (rcp (tasks s ! k))"
    by (simp add: inv_ops_def)
  have "k < length (tasks s)" using k(1) by simp
  with assms(2) have "ops_ok (recording (pc s) k) (tasks s ! k) (ops k (trace s))"
    unfolding inv_ops_def by blast
  then have ok: "ops_ok True (tasks s ! k) (ops k (trace s))"
    by (simp add: recorded(1))
  let ?t = "if closing then (tasks s ! k)\<lparr>chdown := chan_close (chdown (tasks s ! k))\<rparr>
            else tasks s ! k"
  have ts: "tasks s' = (tasks s)[k := ?t]"
    using k(1) by (simp add: recorded(3))
  have ok': "ops_ok False ?t (ops k (trace s) @ [SendErr e])"
    unfolding e using ok k(2) by (rule ops_ok_recorded) simp_all
  show ?thesis
    by (rule inv_ops_update [OF assms(2) _ _ ts, where evs = "[Op k (SendErr e)]"])
       (use k ok' in \<open>simp_all add: recorded(1,3)\<close>)
next
  case (record_panics k e closing)
  with assms(2) show ?thesis by (simp add: inv_ops_panicked)
next
  case close_panics
  with assms(2) show ?thesis by (simp add: inv_ops_panicked)
next
  case joined
  show ?thesis
    by (rule inv_ops_frame [OF assms(2)]) (simp_all add: joined)
qed

lemma inv_ops_step: "inv s \<Longrightarrow> inv_ops s \<Longrightarrow> step a s = Some s' \<Longrightarrow> inv_ops s'"
  by (cases a)
     (auto simp: step_def split: if_splits
        intro: inv_ops_main_step inv_ops_pub_step inv_ops_recv_step inv_ops_timeout_step
          inv_ops_col_step inv_ops_deliver_step)

lemma inv_ops_init: "inv_ops (init p rs)"
  by (simp add: inv_ops_def init_def)

subsection \<open>What the trace says about the channels\<close>

lemma errs_append [simp]: "errs (xs @ ys) = errs xs @ errs ys"
  by (induction xs rule: errs.induct) simp_all

lemma resps_append [simp]: "resps (xs @ ys) = resps xs @ resps ys"
  by (induction xs rule: resps.induct) simp_all

lemma marshals_append [simp]: "marshals (xs @ ys) = marshals xs + marshals ys"
  by (induction xs rule: marshals.induct) simp_all

lemma wg_Done_fields [simp]:
  "packet (wg_Done s) = packet s" "rcpts (wg_Done s) = rcpts s" "pc (wg_Done s) = pc s"
  "data (wg_Done s) = data s" "cherr (wg_Done s) = cherr s" "chresp (wg_Done s) = chresp s"
  "tasks (wg_Done s) = tasks s" "trace (wg_Done s) = trace s"
  by (simp_all add: wg_Done_def)

lemma inv_at_marshal: "inv s \<Longrightarrow> i < length (tasks s) \<Longrightarrow> pc s \<noteq> AtMarshal"
  by (auto simp: inv_def started_def split: sum.splits)

lemma inv_trace_worker:
  assumes "inv_trace s" and "pc s \<noteq> AtMarshal"
    and "pc s' = pc s" "packet s' = packet s" "data s' = data s"
    and "trace s' = trace s @ evs" "marshals evs = 0"
    and "buf (cherr s') = buf (cherr s) @ errs evs"
    and "buf (chresp s') = buf (chresp s) @ resps evs"
  shows "inv_trace s'"
  using assms by (simp add: inv_trace_def split: sum.splits)

lemma inv_trace_panicked: "inv_trace (s\<lparr>panicked := b\<rparr>) = inv_trace s"
  by (simp add: inv_trace_def split: sum.splits)

lemma inv_trace_pub_step:
  assumes "inv s" and "inv_trace s" and "pub_step i s = Some s'"
  shows "inv_trace s'"
  using assms(3)
proof (cases rule: pub_stepE)
  case (published up down)
  show ?thesis
    by (rule inv_trace_worker [OF assms(2) inv_at_marshal [OF assms(1) published(1)],
          where evs = "[Op i (Publish up (data s) True)]"])
       (simp_all add: published)
next
  case (pub_failed up down e)
  show ?thesis
    by (rule inv_trace_worker [OF assms(2) inv_at_marshal [OF assms(1) pub_failed(1)],
          where evs = "[Op i (Publish up (data s) False)]"])
       (simp_all add: pub_failed)
next
  case (reported e c)
  note c = send_Sent [OF reported(3)]
  show ?thesis
    by (rule inv_trace_worker [OF assms(2) inv_at_marshal [OF assms(1) reported(1)],
          where evs = "[Op i (SendErr e)]"])
       (simp_all add: reported c)
next
  case (report_panics e)
  with assms(2) show ?thesis by (simp add: inv_trace_panicked)
qed

lemma inv_trace_recv_step:
  assumes "inv s" and "inv_trace s" and "recv_step i s = Some s'"
  shows "inv_trace s'"
  using assms(3)
proof (cases rule: recv_stepE)
  case (received m c)
  show ?thesis
    by (rule inv_trace_worker [OF assms(2) inv_at_marshal [OF assms(1) received(1)],
          where evs = "[]"])
       (simp_all add: received)
next
  case closed
  show ?thesis
    by (rule inv_trace_worker [OF assms(2) inv_at_marshal [OF assms(1) closed(1)],
          where evs = "[]"])
       (simp_all add: closed)
qed

lemma inv_trace_timeout_step:
  assumes "inv s" and "inv_trace s" and "timeout_step i s = Some s'"
  shows "inv_trace s'"
  using assms(3)
proof (cases rule: timeout_stepE)
  case 1
  show ?thesis
    by (rule inv_trace_worker [OF assms(2) inv_at_marshal [OF assms(1) 1(1)],
          where evs = "[]"])
       (simp_all add: 1)
qed

lemma inv_trace_col_step:
  assumes "inv s" and "inv_trace s" and "col_step i s = Some s'"
  shows "inv_trace s'"
  using assms(3)
proof (cases rule: col_stepE)
  case (forwarded m c)
  note c = send_Sent [OF forwarded(3)]
  show ?thesis
    by (rule inv_trace_worker [OF assms(2) inv_at_marshal [OF assms(1) forwarded(1)],
          where evs = "[Op i (SendResp m)]"])
       (simp_all add: forwarded c)
next
  case (forward_panics m)
  with assms(2) show ?thesis by (simp add: inv_trace_panicked)
next
  case (unsubscribed up down)
  show ?thesis
    by (rule inv_trace_worker [OF assms(2) inv_at_marshal [OF assms(1) unsubscribed(1)],
          where evs = "[Op i (Unsubscribe down True)]"])
       (simp_all add: unsubscribed)
next
  case (unsub_failed up down e)
  show ?thesis
    by (rule inv_trace_worker [OF assms(2) inv_at_marshal [OF assms(1) unsub_failed(1)],
          where evs = "[Op i (Unsubscribe down False)]"])
       (simp_all add: unsub_failed)
qed

lemma inv_trace_deliver_step:
  assumes "inv s" and "inv_trace s" and "deliver_step i s = Some s'"
  shows "inv_trace s'"
  using assms(3)
proof (cases rule: deliver_stepE)
  case (handed m ms c)
  show ?thesis
    by (rule inv_trace_worker [OF assms(2) inv_at_marshal [OF assms(1) handed(1)],
          where evs = "[]"])
       (simp_all add: handed(5))
next
  case (deliver_panics m ms)
  with assms(2) show ?thesis by (simp add: inv_trace_panicked)
qed

lemma inv_trace_main_step:
  assumes "inv s" and "inv_trace s" and "main_step s = Some s'"
  shows "inv_trace s'"
  using assms(3)
proof (cases rule: main_stepE)
  case (bad_packet e)
  with assms(2) show ?thesis by (simp add: inv_trace_def split: sum.splits)
next
  case (marshalled d)
  with assms(2) show ?thesis by (simp add: inv_trace_def make_chan_def split: sum.splits)
next
  case (not_mqtt k t)
  with assms(2) show ?thesis by (simp add: inv_trace_def split: sum.splits)
next
  case (sub_failed k up down t e)
  with assms(2) show ?thesis by (simp add: inv_trace_def split: sum.splits)
next
  case (spawned k up down t)
  with assms(2) show ?thesis by (simp add: inv_trace_def split: sum.splits)
next
  case (loop_end k)
  with assms(2) show ?thesis by (simp add: inv_trace_def split: sum.splits)
next
  case (recorded k e closing c)
  note c = send_Sent [OF recorded(2)]
  from assms(2) recorded(1,3) c show ?thesis by (simp add: inv_trace_def split: sum.splits)
next
  case (record_panics k e closing)
  with assms(2) show ?thesis by (simp add: inv_trace_panicked)
next
  case close_panics
  with assms(2) show ?thesis by (simp add: inv_trace_panicked)
next
  case joined
  have st: "started s" using assms(1) joined(1) inv_pc_started by blast
  with assms(2) joined show ?thesis
    by (simp add: inv_trace_def chan_close_def started_def split: sum.splits)
qed

lemma inv_trace_step: "inv s \<Longrightarrow> inv_trace s \<Longrightarrow> step a s = Some s' \<Longrightarrow> inv_trace s'"
  by (cases a)
     (auto simp: step_def split: if_splits
        intro: inv_trace_main_step inv_trace_pub_step inv_trace_recv_step inv_trace_timeout_step
          inv_trace_col_step inv_trace_deliver_step)

lemma inv_trace_init: "inv_trace (init p rs)"
  by (simp add: inv_trace_def init_def make_chan_def split: sum.splits)

subsection \<open>Every operation is the one the code makes\<close>

lemma inv_wf_panicked: "inv_wf (s\<lparr>panicked := b\<rparr>) = inv_wf s"
  by (simp add: inv_wf_def)

lemma inv_wf_worker:
  assumes w: "inv_wf s"
    and same: "rcpts s' = rcpts s" "data s' = data s"
    and ts: "tasks s' = (tasks s)[i := t']"
    and tr: "trace s' = trace s @ evs" "\<forall>e \<in> set evs. ev_ok (rcpts s) (data s) e"
    and t': "task_wf t'"
  shows "inv_wf s'"
proof -
  have "\<forall>t \<in> set (tasks s). task_wf t" using w by (simp add: inv_wf_def)
  then have a: "\<forall>t \<in> set (tasks s'). task_wf t"
    unfolding ts using t' by (rule ball_update)
  have b: "\<forall>e \<in> set (trace s'). ev_ok (rcpts s') (data s') e"
    using w tr(2) by (auto simp: inv_wf_def tr(1) same)
  from a b show ?thesis by (simp add: inv_wf_def)
qed

lemma inv_wf_task: "inv_wf s \<Longrightarrow> i < length (tasks s) \<Longrightarrow> task_wf (tasks s ! i)"
  by (simp add: inv_wf_def)

lemma spawned_facts:
  assumes "inv s" and "inv_ops s" and "i < length (tasks s)" and "pub (tasks s ! i) \<noteq> PubNone"
  obtains up down where "rcp (tasks s ! i) = MqttRecipient up down"
    and "rcpts s ! i = (MqttRecipient up down, env (tasks s ! i))"
    and "sub_err (env (tasks s ! i)) = None" and "i < length (rcpts s)"
proof -
  from assms(2,3) have ok: "ops_ok (recording (pc s) i) (tasks s ! i) (ops i (trace s))"
    and eq: "(rcp (tasks s ! i), env (tasks s ! i)) = rcpts s ! i"
    by (simp_all add: inv_ops_def)
  from ok assms(4) obtain up down where r: "rcp (tasks s ! i) = MqttRecipient up down"
    by (cases "rcp (tasks s ! i)") (auto simp: ops_ok_def)
  with ok assms(4) have se: "sub_err (env (tasks s ! i)) = None" by (simp add: ops_ok_def)
  from assms(1,3) have "i < length (rcpts s)" by (simp add: inv_def)
  with r se eq that show ?thesis by simp
qed

lemma col_spawned: "inv s \<Longrightarrow> i < length (tasks s) \<Longrightarrow> col (tasks s ! i) \<noteq> ColNone \<Longrightarrow>
  pub (tasks s ! i) \<noteq> PubNone"
  using inv_task [of s i] by (simp add: task_inv_def)

lemma inv_wf_pub_step:
  assumes "inv s" and "inv_ops s" and "inv_wf s" and "pub_step i s = Some s'"
  shows "inv_wf s'"
  using assms(4)
proof (cases rule: pub_stepE)
  case (published up down)
  from published(2) have sp: "pub (tasks s ! i) \<noteq> PubNone" by simp
  from spawned_facts [OF assms(1,2) published(1) sp] obtain up' down' where
    f: "rcp (tasks s ! i) = MqttRecipient up' down'"
       "rcpts s ! i = (MqttRecipient up' down', env (tasks s ! i))"
       "sub_err (env (tasks s ! i)) = None" "i < length (rcpts s)"
    by blast
  note tw = inv_wf_task [OF assms(3) published(1)]
  show ?thesis
    by (rule inv_wf_worker [OF assms(3), where i = i and t' = "(tasks s ! i)\<lparr>pub := PubDone\<rparr>"
          and evs = "[Op i (Publish up (data s) True)]"])
       (use published f tw in \<open>simp_all add: task_wf_def\<close>)
next
  case (pub_failed up down e)
  from pub_failed(2) have sp: "pub (tasks s ! i) \<noteq> PubNone" by simp
  from spawned_facts [OF assms(1,2) pub_failed(1) sp] obtain up' down' where
    f: "rcp (tasks s ! i) = MqttRecipient up' down'"
       "rcpts s ! i = (MqttRecipient up' down', env (tasks s ! i))"
       "sub_err (env (tasks s ! i)) = None" "i < length (rcpts s)"
    by blast
  note tw = inv_wf_task [OF assms(3) pub_failed(1)]
  show ?thesis
    by (rule inv_wf_worker [OF assms(3), where i = i
          and t' = "(tasks s ! i)\<lparr>pub := PubFailed (errors_New ErrFailedOperation e)\<rparr>"
          and evs = "[Op i (Publish up (data s) False)]"])
       (use pub_failed f tw in \<open>simp_all add: task_wf_def\<close>)
next
  case (reported e c)
  from reported(2) have sp: "pub (tasks s ! i) \<noteq> PubNone" by simp
  from spawned_facts [OF assms(1,2) reported(1) sp] obtain up' down' where
    f: "rcp (tasks s ! i) = MqttRecipient up' down'"
       "rcpts s ! i = (MqttRecipient up' down', env (tasks s ! i))"
       "sub_err (env (tasks s ! i)) = None" "i < length (rcpts s)"
    by blast
  note tw = inv_wf_task [OF assms(3) reported(1)]
  from tw reported(2) have e: "failed_ok (PubFailed e) (pub_err (env (tasks s ! i)))"
    by (simp add: task_wf_def)
  then have ok: "op_ok (MqttRecipient up' down') (env (tasks s ! i)) (data s) (SendErr e)"
    using f(3) by (cases "pub_err (env (tasks s ! i))") simp_all
  show ?thesis
    by (rule inv_wf_worker [OF assms(3), where i = i and t' = "(tasks s ! i)\<lparr>pub := PubDone\<rparr>"
          and evs = "[Op i (SendErr e)]"])
       (use reported(1,4) f ok tw in \<open>simp_all add: task_wf_def\<close>)
next
  case (report_panics e)
  with assms(3) show ?thesis by (simp add: inv_wf_panicked)
qed

lemma inv_wf_recv_step:
  assumes "inv_wf s" and "recv_step i s = Some s'"
  shows "inv_wf s'"
  using assms(2)
proof (cases rule: recv_stepE)
  case (received m c)
  note tw = inv_wf_task [OF assms(1) received(1)]
  from tw received(3) have c: "sendq (chdown (tasks s ! i)) = m # sendq c" "cap c = 0" "buf c = []"
    by (auto simp: task_wf_def chan_recv_def split: list.splits if_splits)
  with tw received(2) have "downlink (env (tasks s ! i)) = m # sendq c @ pending (tasks s ! i)"
    by (simp add: task_wf_def)
  with tw c have t': "task_wf ((tasks s ! i)\<lparr>col := ColForward m, chdown := c\<rparr>)"
    by (simp add: task_wf_def)
  show ?thesis
    by (rule inv_wf_worker [OF assms(1) _ _ _ _ _ t', where i = i and evs = "[]"])
       (simp_all add: received(4))
next
  case closed
  note tw = inv_wf_task [OF assms(1) closed(1)]
  then have t': "task_wf ((tasks s ! i)\<lparr>col := ColCleanup\<rparr>)"
    by (simp add: task_wf_def)
  show ?thesis
    by (rule inv_wf_worker [OF assms(1) _ _ _ _ _ t', where i = i and evs = "[]"])
       (simp_all add: closed(4))
qed

lemma inv_wf_timeout_step:
  assumes "inv_wf s" and "timeout_step i s = Some s'"
  shows "inv_wf s'"
  using assms(2)
proof (cases rule: timeout_stepE)
  case 1
  note tw = inv_wf_task [OF assms(1) 1(1)]
  then have t': "task_wf ((tasks s ! i)\<lparr>col := ColCleanup\<rparr>)"
    by (simp add: task_wf_def)
  show ?thesis
    by (rule inv_wf_worker [OF assms(1) _ _ _ _ _ t', where i = i and evs = "[]"])
       (simp_all add: 1(3))
qed

lemma inv_wf_col_step:
  assumes "inv s" and "inv_ops s" and "inv_wf s" and "col_step i s = Some s'"
  shows "inv_wf s'"
  using assms(4)
proof (cases rule: col_stepE)
  case (forwarded m c)
  have sp: "pub (tasks s ! i) \<noteq> PubNone"
    using col_spawned [OF assms(1) forwarded(1)] forwarded(2) by simp
  from spawned_facts [OF assms(1,2) forwarded(1) sp] obtain up' down' where
    f: "rcp (tasks s ! i) = MqttRecipient up' down'"
       "rcpts s ! i = (MqttRecipient up' down', env (tasks s ! i))"
       "sub_err (env (tasks s ! i)) = None" "i < length (rcpts s)"
    by blast
  note tw = inv_wf_task [OF assms(3) forwarded(1)]
  from tw forwarded(2) have "forward_ok (ColForward m) (downlink (env (tasks s ! i)))"
    by (simp add: task_wf_def)
  then have ok: "op_ok (MqttRecipient up' down') (env (tasks s ! i)) (data s) (SendResp m)"
    using f(3) by (cases "downlink (env (tasks s ! i))") simp_all
  from tw have t': "task_wf ((tasks s ! i)\<lparr>col := ColCleanup\<rparr>)"
    by (simp add: task_wf_def)
  show ?thesis
    by (rule inv_wf_worker [OF assms(3) _ _ _ _ _ t', where i = i and evs = "[Op i (SendResp m)]"])
       (use forwarded(4) f ok in \<open>simp_all\<close>)
next
  case (forward_panics m)
  with assms(3) show ?thesis by (simp add: inv_wf_panicked)
next
  case (unsubscribed up down)
  have sp: "pub (tasks s ! i) \<noteq> PubNone"
    using col_spawned [OF assms(1) unsubscribed(1)] unsubscribed(2) by simp
  from spawned_facts [OF assms(1,2) unsubscribed(1) sp] obtain up' down' where
    f: "rcp (tasks s ! i) = MqttRecipient up' down'"
       "rcpts s ! i = (MqttRecipient up' down', env (tasks s ! i))"
       "sub_err (env (tasks s ! i)) = None" "i < length (rcpts s)"
    by blast
  note tw = inv_wf_task [OF assms(3) unsubscribed(1)]
  from tw have t': "task_wf ((tasks s ! i)\<lparr>col := ColDone, subscribed := False\<rparr>)"
    by (simp add: task_wf_def)
  show ?thesis
    by (rule inv_wf_worker [OF assms(3) _ _ _ _ _ t', where i = i
          and evs = "[Op i (Unsubscribe down True)]"])
       (use unsubscribed f in \<open>simp_all\<close>)
next
  case (unsub_failed up down e)
  have sp: "pub (tasks s ! i) \<noteq> PubNone"
    using col_spawned [OF assms(1) unsub_failed(1)] unsub_failed(2) by simp
  from spawned_facts [OF assms(1,2) unsub_failed(1) sp] obtain up' down' where
    f: "rcp (tasks s ! i) = MqttRecipient up' down'"
       "rcpts s ! i = (MqttRecipient up' down', env (tasks s ! i))"
       "sub_err (env (tasks s ! i)) = None" "i < length (rcpts s)"
    by blast
  note tw = inv_wf_task [OF assms(3) unsub_failed(1)]
  from tw have t': "task_wf ((tasks s ! i)\<lparr>col := ColDone\<rparr>)"
    by (simp add: task_wf_def)
  show ?thesis
    by (rule inv_wf_worker [OF assms(3) _ _ _ _ _ t', where i = i
          and evs = "[Op i (Unsubscribe down False)]"])
       (use unsub_failed f in \<open>simp_all\<close>)
qed

lemma inv_wf_deliver_step:
  assumes "inv_wf s" and "deliver_step i s = Some s'"
  shows "inv_wf s'"
  using assms(2)
proof (cases rule: deliver_stepE)
  case (handed m ms c)
  note tw = inv_wf_task [OF assms(1) handed(1)]
  from tw have "chan_send (chdown (tasks s ! i)) m \<noteq> Sent c"
    by (auto simp: task_wf_def dest: send_Sent)
  with handed(4) have "chan_send (chdown (tasks s ! i)) m = Parked c" by simp
  from send_Parked [OF this] have c: "c = (chdown (tasks s ! i))\<lparr>sendq := sendq (chdown (tasks s ! i)) @ [m]\<rparr>"
    by simp
  from tw handed(3) have t': "task_wf ((tasks s ! i)\<lparr>chdown := c, pending := ms\<rparr>)"
    by (simp add: task_wf_def c)
  show ?thesis
    by (rule inv_wf_worker [OF assms(1) _ _ _ _ _ t', where i = i and evs = "[]"])
       (simp_all add: handed(5))
next
  case (deliver_panics m ms)
  with assms(1) show ?thesis by (simp add: inv_wf_panicked)
qed

lemma inv_wf_push:
  assumes w: "inv_wf s"
    and same: "rcpts s' = rcpts s" "data s' = data s"
    and ts: "tasks s' = tasks s @ [t]"
    and tr: "trace s' = trace s @ evs" "\<forall>e \<in> set evs. ev_ok (rcpts s) (data s) e"
    and t: "task_wf t"
  shows "inv_wf s'"
  using assms by (auto simp: inv_wf_def)

lemma inv_wf_main_step:
  assumes "inv s" and "inv_ops s" and "inv_trace s" and "inv_wf s" and "main_step s = Some s'"
  shows "inv_wf s'"
  using assms(5)
proof (cases rule: main_stepE)
  case (bad_packet e)
  with assms(4) show ?thesis by (simp add: inv_wf_def)
next
  case (marshalled d)
  with assms(3) have "trace s = []" by (simp add: inv_trace_def)
  with assms(4) marshalled show ?thesis by (simp add: inv_wf_def)
next
  case (not_mqtt k t)
  show ?thesis
    by (rule inv_wf_push [OF assms(4), where t = "skipped_task OtherRecipient t" and evs = "[]"])
       (simp_all add: not_mqtt skipped_task_def task_wf_def make_chan_def)
next
  case (sub_failed k up down t e)
  show ?thesis
    by (rule inv_wf_push [OF assms(4), where t = "skipped_task (MqttRecipient up down) t"
          and evs = "[Op k (Subscribe down False)]"])
       (simp_all add: sub_failed skipped_task_def task_wf_def make_chan_def)
next
  case (spawned k up down t)
  show ?thesis
    by (rule inv_wf_push [OF assms(4), where t = "spawned_task (MqttRecipient up down) t"
          and evs = "[Op k (Subscribe down True)]"])
       (simp_all add: spawned spawned_task_def task_wf_def make_chan_def)
next
  case (loop_end k)
  with assms(4) show ?thesis by (simp add: inv_wf_def)
next
  case (recorded k e closing c)
  have st: "started s" using assms(1) recorded(1) inv_pc_started by blast
  from assms(1) st recorded(1) have k: "length (tasks s) = Suc k" "pub (tasks s ! k) = PubNone"
    by (simp_all add: inv_def)
  then have kl: "k < length (tasks s)" by simp
  from assms(2) recorded(1) have e: "e = skip_error (rcp (tasks s ! k))"
    by (simp add: inv_ops_def)
  from assms(2) kl have ok: "ops_ok (recording (pc s) k) (tasks s ! k) (ops k (trace s))"
    and eq: "(rcp (tasks s ! k), env (tasks s ! k)) = rcpts s ! k"
    unfolding inv_ops_def by blast+
  from assms(1) kl have kr: "k < length (rcpts s)" by (simp add: inv_def)
  have evok: "ev_ok (rcpts s) (data s) (Op k (SendErr e))"
  proof (cases "rcp (tasks s ! k)")
    case OtherRecipient
    with eq [symmetric] kr e show ?thesis by simp
  next
    case (MqttRecipient up down)
    with ok k(2) have "sub_err (env (tasks s ! k)) \<noteq> None" by (simp add: ops_ok_def)
    with MqttRecipient eq [symmetric] kr e show ?thesis by auto
  qed
  have col: "col (tasks s ! k) = ColNone"
    using inv_task [OF assms(1) kl] k(2) by (simp add: task_inv_def)
  note tw = inv_wf_task [OF assms(4) kl]
  let ?t = "if closing then (tasks s ! k)\<lparr>chdown := chan_close (chdown (tasks s ! k))\<rparr>
            else tasks s ! k"
  have ts: "tasks s' = (tasks s)[k := ?t]"
    using k(1) by (simp add: recorded(3))
  have t': "task_wf ?t" using tw col k(2) by (simp add: task_wf_def chan_close_def)
  show ?thesis
    by (rule inv_wf_worker [OF assms(4) _ _ ts _ _ t', where evs = "[Op k (SendErr e)]"])
       (use evok in \<open>simp_all add: recorded(3)\<close>)
next
  case (record_panics k e closing)
  with assms(4) show ?thesis by (simp add: inv_wf_panicked)
next
  case close_panics
  with assms(4) show ?thesis by (simp add: inv_wf_panicked)
next
  case joined
  with assms(4) show ?thesis by (simp add: inv_wf_def)
qed

lemma inv_wf_step:
  "inv s \<Longrightarrow> inv_ops s \<Longrightarrow> inv_trace s \<Longrightarrow> inv_wf s \<Longrightarrow> step a s = Some s' \<Longrightarrow> inv_wf s'"
  by (cases a)
     (auto simp: step_def split: if_splits
        intro: inv_wf_main_step inv_wf_pub_step inv_wf_recv_step inv_wf_timeout_step
          inv_wf_col_step inv_wf_deliver_step)

lemma inv_wf_init: "inv_wf (init p rs)"
  by (simp add: inv_wf_def init_def)

subsection \<open>Every state of every interleaving\<close>

lemma invs_step: "invs s \<Longrightarrow> step a s = Some s' \<Longrightarrow> invs s'"
  unfolding invs_def
  using inv_step [of s a s'] inv_ops_step [of s a s'] inv_trace_step [of s a s']
    inv_wf_step [of s a s']
  by blast

lemma invs_init: "invs (init p rs)"
  by (simp add: invs_def inv_init inv_ops_init inv_trace_init inv_wf_init)

lemma invs_exec: "invs s \<Longrightarrow> invs (exec sched s)"
proof (induction sched arbitrary: s)
  case Nil
  then show ?case by simp
next
  case (Cons a sched)
  show ?case
  proof (cases "step a s")
    case None
    with Cons show ?thesis by simp
  next
    case (Some s')
    from Cons.prems Some have "invs s'" by (rule invs_step)
    with Cons.IH Some show ?thesis by simp
  qed
qed

lemma invs_run: "invs (run sched p rs)"
  unfolding run_def by (rule invs_exec) (rule invs_init)

lemma main_step_frame: "main_step s = Some s' \<Longrightarrow> packet s' = packet s \<and> rcpts s' = rcpts s"
  by (erule main_stepE) simp_all

lemma pub_step_frame: "pub_step i s = Some s' \<Longrightarrow> packet s' = packet s \<and> rcpts s' = rcpts s"
  by (erule pub_stepE) simp_all

lemma recv_step_frame: "recv_step i s = Some s' \<Longrightarrow> packet s' = packet s \<and> rcpts s' = rcpts s"
  by (erule recv_stepE) simp_all

lemma timeout_step_frame: "timeout_step i s = Some s' \<Longrightarrow> packet s' = packet s \<and> rcpts s' = rcpts s"
  by (erule timeout_stepE) simp_all

lemma col_step_frame: "col_step i s = Some s' \<Longrightarrow> packet s' = packet s \<and> rcpts s' = rcpts s"
  by (erule col_stepE) simp_all

lemma deliver_step_frame: "deliver_step i s = Some s' \<Longrightarrow> packet s' = packet s \<and> rcpts s' = rcpts s"
  by (erule deliver_stepE) simp_all

lemma step_frame: "step a s = Some s' \<Longrightarrow> packet s' = packet s \<and> rcpts s' = rcpts s"
  by (cases a)
     (auto simp: step_def split: if_splits
        dest: main_step_frame pub_step_frame recv_step_frame timeout_step_frame col_step_frame
          deliver_step_frame)

lemma exec_frame: "packet (exec sched s) = packet s \<and> rcpts (exec sched s) = rcpts s"
proof (induction sched arbitrary: s)
  case Nil
  then show ?case by simp
next
  case (Cons a sched)
  show ?case
  proof (cases "step a s")
    case None
    with Cons show ?thesis by simp
  next
    case (Some s')
    with Cons [of s'] step_frame [OF Some] show ?thesis by simp
  qed
qed

lemma run_frame [simp]: "packet (run sched p rs) = p" "rcpts (run sched p rs) = rs"
  using exec_frame [of sched "init p rs"] by (simp_all add: run_def init_def)

lemma exec_append: "exec (xs @ ys) s = exec ys (exec xs s)"
  by (induction xs arbitrary: s) simp_all

lemma run_append: "run (xs @ ys) p rs = exec ys (run xs p rs)"
  by (simp add: run_def exec_append)

subsection \<open>Consequences for the claims\<close>

lemma ops_mem: "x \<in> set (ops i tr) \<longleftrightarrow> Op i x \<in> set tr"
  by (induction i tr rule: ops.induct) auto

lemma no_ops_trace:
  "\<forall>i. ops i tr = [] \<Longrightarrow> tr = replicate (marshals tr) MarshalBinary \<and> errs tr = [] \<and> resps tr = []"
proof (induction tr)
  case Nil
  then show ?case by simp
next
  case (Cons e tr)
  show ?case
  proof (cases e)
    case MarshalBinary
    with Cons show ?thesis by simp
  next
    case (Op j x)
    with Cons.prems have "ops j (e # tr) = []" by blast
    with Op show ?thesis by simp
  qed
qed

lemma not_started_trace:
  assumes "invs s" and "\<not> started s"
  shows "tasks s = [] \<and> (trace s = [] \<or> trace s = [MarshalBinary]) \<and> errs (trace s) = [] \<and>
         resps (trace s) = []"
proof -
  from assms have t: "tasks s = []" by (simp add: invs_def inv_def)
  with assms(1) have "\<forall>i. ops i (trace s) = []" by (simp add: invs_def inv_ops_def)
  from no_ops_trace [OF this] have r: "trace s = replicate (marshals (trace s)) MarshalBinary"
    "errs (trace s) = []" "resps (trace s) = []"
    by simp_all
  from assms(1) have "marshals (trace s) = 0 \<or> marshals (trace s) = 1"
    by (auto simp: invs_def inv_trace_def)
  with r(1) have "trace s = [] \<or> trace s = [MarshalBinary]"
    by (metis One_nat_def replicate_0 replicate_Suc)
  with t r show ?thesis by simp
qed

lemma all_done:
  assumes "inv s" and "started s" and "wg s = 0" and "i < length (tasks s)"
  shows "pub (tasks s ! i) = PubDone \<and> col (tasks s ! i) = ColDone"
proof -
  have "\<not> finished (tasks s ! i) < 2"
    using inv_wg_pos [OF assms(1,4)] assms(3) by auto
  then show ?thesis
    by (cases "pub (tasks s ! i) = PubDone"; cases "col (tasks s ! i) = ColDone")
       (simp_all add: finished_def)
qed

lemma err_room:
  assumes "inv s" and "i < length (tasks s)" and "pub_live (pub (tasks s ! i))"
  shows "chan_send (cherr s) e = Sent ((cherr s)\<lparr>buf := buf (cherr s) @ [e]\<rparr>)"
proof -
  have st: "started s" using assms(1,2) by (rule inv_started)
  have f: "finished (tasks s ! i) < 2"
    using assms(3) by (cases "pub (tasks s ! i)") (simp_all add: finished_def)
  have "\<not> has_returned (pc s)" using assms(1,2) f by (rule inv_not_returned)
  with assms(1) have c: "\<not> is_closed (cherr s)" by (auto simp: inv_def)
  have "owes_err (tasks s ! i) \<le> tally owes_err (tasks s)"
    using assms(2) by (rule tally_ge_nth)
  with assms(3) have "1 \<le> tally owes_err (tasks s)" by (simp add: owes_err_def)
  moreover from assms(1) st have
    "length (buf (cherr s)) + tally owes_err (tasks s) + main_owes (pc s) \<le> length (tasks s)"
    "length (tasks s) \<le> length (rcpts s)" "cap (cherr s) = length (rcpts s)"
    by (simp_all add: inv_def)
  ultimately have "length (buf (cherr s)) < cap (cherr s)" by linarith
  with c show ?thesis by (simp add: chan_send_def)
qed

lemma resp_room:
  assumes "inv s" and "i < length (tasks s)" and "col_waits (col (tasks s ! i))"
  shows "chan_send (chresp s) m = Sent ((chresp s)\<lparr>buf := buf (chresp s) @ [m]\<rparr>)"
proof -
  have st: "started s" using assms(1,2) by (rule inv_started)
  have f: "finished (tasks s ! i) < 2"
    using assms(3) by (cases "col (tasks s ! i)") (simp_all add: finished_def)
  have "\<not> has_returned (pc s)" using assms(1,2) f by (rule inv_not_returned)
  with assms(1) have c: "\<not> is_closed (chresp s)" by (auto simp: inv_def)
  have "owes_resp (tasks s ! i) \<le> tally owes_resp (tasks s)"
    using assms(2) by (rule tally_ge_nth)
  with assms(3) have "1 \<le> tally owes_resp (tasks s)" by (simp add: owes_resp_def)
  moreover from assms(1) st have
    "length (buf (chresp s)) + tally owes_resp (tasks s) \<le> length (tasks s)"
    "length (tasks s) \<le> length (rcpts s)" "cap (chresp s) = length (rcpts s)"
    by (simp_all add: inv_def)
  ultimately have "length (buf (chresp s)) < cap (chresp s)" by linarith
  with c show ?thesis by (simp add: chan_send_def)
qed

lemma record_room:
  assumes "inv s" and "pc s = AtRecord k e c"
  shows "chan_send (cherr s) e' = Sent ((cherr s)\<lparr>buf := buf (cherr s) @ [e']\<rparr>)"
proof -
  have st: "started s" using assms inv_pc_started by blast
  from assms(1) st assms(2) have
    "length (buf (cherr s)) + tally owes_err (tasks s) + main_owes (pc s) \<le> length (tasks s)"
    "length (tasks s) \<le> length (rcpts s)" "cap (cherr s) = length (rcpts s)"
    "\<not> is_closed (cherr s)"
    by (auto simp: inv_def)
  with assms(2) show ?thesis by (simp add: chan_send_def)
qed

lemma buffers_bounded:
  assumes "invs s"
  shows "length (errs (trace s)) \<le> length (rcpts s) \<and> length (resps (trace s)) \<le> length (rcpts s)"
proof (cases "started s")
  case True
  from assms have i: "inv s" "inv_trace s" by (simp_all add: invs_def)
  from i(1) True have
    "length (buf (cherr s)) + tally owes_err (tasks s) + main_owes (pc s) \<le> length (tasks s)"
    "length (buf (chresp s)) + tally owes_resp (tasks s) \<le> length (tasks s)"
    "length (tasks s) \<le> length (rcpts s)"
    by (simp_all add: inv_def)
  moreover from i(2) have "buf (cherr s) = errs (trace s)" "buf (chresp s) = resps (trace s)"
    by (simp_all add: inv_trace_def)
  ultimately show ?thesis by simp
next
  case False
  with not_started_trace [OF assms] show ?thesis by simp
qed

lemma ops_ok_counts:
  assumes "ops_ok r t os"
  shows "cnt is_sub os \<le> 1 \<and> cnt is_pub os \<le> 1 \<and> cnt is_err os \<le> 1 \<and> cnt is_resp os \<le> 1 \<and>
         cnt is_unsub os \<le> 1"
proof (cases "rcp t")
  case OtherRecipient
  with assms show ?thesis by (simp add: ops_ok_def split: if_splits)
next
  case (MqttRecipient up down)
  show ?thesis
  proof (cases "pub t = PubNone")
    case True
    with assms MqttRecipient show ?thesis by (simp add: ops_ok_def split: if_splits)
  next
    case False
    with assms MqttRecipient obtain rest where os: "os = Subscribe down True # rest"
      by (cases os) (simp_all add: ops_ok_def)
    with assms MqttRecipient False show ?thesis
      by (auto simp: ops_ok_def of_bool_def max_def split: if_splits)
  qed
qed

lemma ops_counts:
  assumes "invs s"
  shows "cnt is_sub (ops i (trace s)) \<le> 1 \<and> cnt is_pub (ops i (trace s)) \<le> 1 \<and>
         cnt is_err (ops i (trace s)) \<le> 1 \<and> cnt is_resp (ops i (trace s)) \<le> 1 \<and>
         cnt is_unsub (ops i (trace s)) \<le> 1"
proof (cases "i < length (tasks s)")
  case True
  with assms have "ops_ok (recording (pc s) i) (tasks s ! i) (ops i (trace s))"
    by (simp add: invs_def inv_ops_def)
  then show ?thesis by (rule ops_ok_counts)
next
  case False
  with assms have "ops i (trace s) = []" by (simp add: invs_def inv_ops_def)
  then show ?thesis by simp
qed

section \<open>The claims about Send\<close>

lemmas send_eval =
  run_def init_def step_def main_step_def pub_step_def recv_step_def timeout_step_def
  col_step_def deliver_step_def spawned_task_def skipped_task_def make_chan_def chan_send_def
  chan_recv_def chan_close_def chan_len_def collect_def wg_Done_def result_def errors_New_def
  quiet_def answering_def refusing_def



text \<open>
  C1: take any state of any interleaving in which the main goroutine is at
  \<open>wg.Wait()\<close> and the counter is zero. Then every recipient has been reached and
  every goroutine has finished; the buffers of \<open>chresp\<close> and \<open>cherr\<close> hold the
  payloads and the errors sent so far; and the next step of the main goroutine
  returns one outcome: the one payload when exactly one was collected (whatever
  errors were recorded), \<open>ErrWrongBehavior\<close> when two or more were collected,
  \<open>ErrFailedOperation\<close> when none was collected and at least one error was
  recorded, \<open>ErrWrongBehavior\<close> when neither a payload nor an error was.
\<close>

theorem Send_aggregation:
  assumes "s = run sched p rs" and "pc s = AtWait" and "wg s = 0"
  shows "length (tasks s) = length rs \<and>
         (\<forall>t \<in> set (tasks s). (pub t = PubDone \<and> col t = ColDone)) \<and>
         buf (chresp s) = resps (trace s) \<and> buf (cherr s) = errs (trace s) \<and>
         (\<exists>s'. step Main s = Some s' \<and>
            result s' = Some
              (if length (resps (trace s)) = 1 then Inr (hd (resps (trace s)))
               else if 1 < length (resps (trace s)) then
                 Inl (Failure ErrWrongBehavior ''Received too many positive answers'')
               else if errs (trace s) \<noteq> [] then
                 Inl (Failure ErrFailedOperation
                        ''No positive response from recipients but got unexpected answers'')
               else Inl (Failure ErrWrongBehavior ''No recipient gave a positive answer'')))"
proof -
  have i: "invs s" unfolding assms(1) by (rule invs_run)
  then have iv: "inv s" and it: "inv_trace s" by (simp_all add: invs_def)
  have st: "started s" using iv assms(2) inv_pc_started by blast
  from iv st assms(2) have len: "length (tasks s) = length rs"
    by (simp add: inv_def assms(1))
  have fin: "\<forall>t \<in> set (tasks s). (pub t = PubDone \<and> col t = ColDone)"
    using all_done [OF iv st assms(3)] by (auto simp: in_set_conv_nth)
  from it have b: "buf (chresp s) = resps (trace s)" "buf (cherr s) = errs (trace s)"
    by (simp_all add: inv_trace_def)
  from iv assms(2) have opn: "\<not> panicked s" "\<not> is_closed (cherr s)" "\<not> is_closed (chresp s)"
    by (auto simp: inv_def)
  have one: "collect (chan_close (cherr s)) (chan_close (chresp s)) = Inr x"
    if "buf (chresp s) = [x]" for x
    using that by (simp add: collect_def chan_len_def chan_close_def chan_recv_def split: list.splits)
  have r: "collect (chan_close (cherr s)) (chan_close (chresp s)) =
        (if length (resps (trace s)) = 1 then Inr (hd (resps (trace s)))
         else if 1 < length (resps (trace s)) then
           Inl (Failure ErrWrongBehavior ''Received too many positive answers'')
         else if errs (trace s) \<noteq> [] then
           Inl (Failure ErrFailedOperation
                  ''No positive response from recipients but got unexpected answers'')
         else Inl (Failure ErrWrongBehavior ''No recipient gave a positive answer''))"
  proof (cases "length (resps (trace s)) = 1")
    case True
    then obtain x where x: "resps (trace s) = [x]"
      by (cases "resps (trace s)") simp_all
    with one [of x] b show ?thesis by simp
  next
    case False
    then have "length (resps (trace s)) = 0 \<or> 1 < length (resps (trace s))" by linarith
    with b show ?thesis
      by (auto simp: collect_def chan_len_def chan_close_def errors_New_def)
  qed
  from opn assms(2,3) have "step Main s =
      Some (s\<lparr>cherr := chan_close (cherr s), chresp := chan_close (chresp s),
              pc := Returned (collect (chan_close (cherr s)) (chan_close (chresp s)))\<rparr>)"
    by (simp add: step_def main_step_AtWait)
  with r have "\<exists>s'. step Main s = Some s' \<and>
            result s' = Some
              (if length (resps (trace s)) = 1 then Inr (hd (resps (trace s)))
               else if 1 < length (resps (trace s)) then
                 Inl (Failure ErrWrongBehavior ''Received too many positive answers'')
               else if errs (trace s) \<noteq> [] then
                 Inl (Failure ErrFailedOperation
                        ''No positive response from recipients but got unexpected answers'')
               else Inl (Failure ErrWrongBehavior ''No recipient gave a positive answer''))"
    by (simp add: result_def)
  with len fin b show ?thesis by blast
qed

theorem Send_aggregation_witness:
  "pc (run [Main, Main, Main, Pub 0, Deliver 0, Recv 0, Col 0, Col 0] (Inr [1, 2])
         [(MqttRecipient ''up'' ''down'', answering [7])]) = AtWait \<and>
   wg (run [Main, Main, Main, Pub 0, Deliver 0, Recv 0, Col 0, Col 0] (Inr [1, 2])
         [(MqttRecipient ''up'' ''down'', answering [7])]) = 0 \<and>
   result (run [Main, Main, Main, Pub 0, Deliver 0, Recv 0, Col 0, Col 0, Main] (Inr [1, 2])
         [(MqttRecipient ''up'' ''down'', answering [7])]) = Some (Inr [7])"
proof -
  let ?s = "run [Main, Main, Main, Pub 0, Deliver 0, Recv 0, Col 0, Col 0] (Inr [1, 2])
         [(MqttRecipient ''up'' ''down'', answering [7])]"
  have h: "pc ?s = AtWait" "wg ?s = 0" by (simp_all add: send_eval)
  have t: "resps (trace ?s) = [[7]]" by (simp add: send_eval)
  have a: "run [Main, Main, Main, Pub 0, Deliver 0, Recv 0, Col 0, Col 0, Main] (Inr [1, 2])
         [(MqttRecipient ''up'' ''down'', answering [7])] = exec [Main] ?s"
    using run_append [of "[Main, Main, Main, Pub 0, Deliver 0, Recv 0, Col 0, Col 0]" "[Main]"]
    by simp
  from Send_aggregation [OF refl h] t obtain s' where
    "step Main ?s = Some s'" "result s' = Some (Inr [7])"
    by auto
  with h a show ?thesis by simp
qed

lemma trace_ev_ok:
  assumes "invs s" and "Op i x \<in> set (trace s)"
  shows "i < length (rcpts s) \<and> op_ok (fst (rcpts s ! i)) (snd (rcpts s ! i)) (data s) x"
proof -
  from assms have "ev_ok (rcpts s) (data s) (Op i x)" by (auto simp: invs_def inv_wf_def)
  then show ?thesis by simp
qed

lemma op_ok_resp:
  "op_ok r t d (SendResp m) \<Longrightarrow> downlink t \<noteq> [] \<and> m = hd (downlink t) \<and> sub_err t = None \<and>
   r \<noteq> OtherRecipient"
  by (cases r; cases "downlink t") simp_all

text \<open>
  C10: in every state of every interleaving, each recipient has sent at most one
  payload into \<open>chresp\<close> and at most one error into \<open>cherr\<close>; a payload sent
  for a recipient is the first one the broker delivers on that recipient's
  downlink topic. The buffers of the two channels hold what was sent, never more
  than the number of recipients, which is their capacity. And no send into them
  blocks: wherever the main goroutine, a publisher or a collector stands at a
  send into \<open>cherr\<close> or \<open>chresp\<close>, the channel is open and has room, so the send
  completes.
\<close>

theorem Send_buffers_never_block:
  assumes "s = run sched p rs"
  shows "cnt is_resp (ops i (trace s)) \<le> 1 \<and> cnt is_err (ops i (trace s)) \<le> 1 \<and>
         (\<forall>m. Op i (SendResp m) \<in> set (trace s) \<longrightarrow>
            i < length rs \<and> downlink (snd (rs ! i)) \<noteq> [] \<and> m = hd (downlink (snd (rs ! i)))) \<and>
         buf (cherr s) = errs (trace s) \<and> buf (chresp s) = resps (trace s) \<and>
         length (errs (trace s)) \<le> length rs \<and> length (resps (trace s)) \<le> length rs \<and>
         (started s \<longrightarrow> cap (cherr s) = length rs \<and> cap (chresp s) = length rs) \<and>
         (\<forall>k e c. pc s = AtRecord k e c \<longrightarrow>
            chan_send (cherr s) e = Sent ((cherr s)\<lparr>buf := buf (cherr s) @ [e]\<rparr>)) \<and>
         (\<forall>j e. j < length (tasks s) \<and> pub (tasks s ! j) = PubFailed e \<longrightarrow>
            chan_send (cherr s) e = Sent ((cherr s)\<lparr>buf := buf (cherr s) @ [e]\<rparr>)) \<and>
         (\<forall>j m. j < length (tasks s) \<and> col (tasks s ! j) = ColForward m \<longrightarrow>
            chan_send (chresp s) m = Sent ((chresp s)\<lparr>buf := buf (chresp s) @ [m]\<rparr>))"
proof -
  have i: "invs s" unfolding assms by (rule invs_run)
  then have iv: "inv s" and it: "inv_trace s" by (simp_all add: invs_def)
  have rs: "rcpts s = rs" by (simp add: assms)
  note c = ops_counts [OF i, of i]
  have first: "\<forall>m. Op i (SendResp m) \<in> set (trace s) \<longrightarrow>
            i < length rs \<and> downlink (snd (rs ! i)) \<noteq> [] \<and> m = hd (downlink (snd (rs ! i)))"
    using trace_ev_ok [OF i] op_ok_resp unfolding rs by blast
  from it have b: "buf (cherr s) = errs (trace s)" "buf (chresp s) = resps (trace s)"
    by (simp_all add: inv_trace_def)
  from buffers_bounded [OF i] have l: "length (errs (trace s)) \<le> length rs"
    "length (resps (trace s)) \<le> length rs"
    by (simp_all add: rs)
  from iv have caps: "started s \<longrightarrow> cap (cherr s) = length rs \<and> cap (chresp s) = length rs"
    by (simp add: inv_def rs)
  have r1: "\<forall>k e c. pc s = AtRecord k e c \<longrightarrow>
            chan_send (cherr s) e = Sent ((cherr s)\<lparr>buf := buf (cherr s) @ [e]\<rparr>)"
    using record_room [OF iv] by blast
  have r2: "\<forall>j e. j < length (tasks s) \<and> pub (tasks s ! j) = PubFailed e \<longrightarrow>
            chan_send (cherr s) e = Sent ((cherr s)\<lparr>buf := buf (cherr s) @ [e]\<rparr>)"
    using err_room [OF iv] by auto
  have r3: "\<forall>j m. j < length (tasks s) \<and> col (tasks s ! j) = ColForward m \<longrightarrow>
            chan_send (chresp s) m = Sent ((chresp s)\<lparr>buf := buf (chresp s) @ [m]\<rparr>)"
    using resp_room [OF iv] by auto
  from c first b l caps r1 r2 r3 show ?thesis by blast
qed

theorem Send_buffers_never_block_witness:
  "cnt is_resp (ops 0 (trace (run [Main, Main, Main, Pub 0, Deliver 0, Recv 0, Col 0] (Inr [1, 2])
         [(MqttRecipient ''up'' ''down'', answering [7])]))) \<le> 1 \<and>
   trace (run [Main, Main, Main, Pub 0, Deliver 0, Recv 0, Col 0] (Inr [1, 2])
         [(MqttRecipient ''up'' ''down'', answering [7])]) =
     [MarshalBinary, Op 0 (Subscribe ''down'' True), Op 0 (Publish ''up'' [1, 2] True),
      Op 0 (SendResp [7])] \<and>
   buf (chresp (run [Main, Main, Main, Pub 0, Deliver 0, Recv 0, Col 0] (Inr [1, 2])
         [(MqttRecipient ''up'' ''down'', answering [7])])) = [[7]]"
proof -
  let ?s = "run [Main, Main, Main, Pub 0, Deliver 0, Recv 0, Col 0] (Inr [1, 2])
         [(MqttRecipient ''up'' ''down'', answering [7])]"
  have t: "trace ?s = [MarshalBinary, Op 0 (Subscribe ''down'' True),
      Op 0 (Publish ''up'' [1, 2] True), Op 0 (SendResp [7])]"
    by (simp add: send_eval)
  from Send_buffers_never_block [OF refl, of 0 "[Main, Main, Main, Pub 0, Deliver 0, Recv 0, Col 0]"
      "Inr [1, 2]" "[(MqttRecipient ''up'' ''down'', answering [7])]"]
  have "cnt is_resp (ops 0 (trace ?s)) \<le> 1" "buf (chresp ?s) = resps (trace ?s)"
    by blast+
  with t show ?thesis by simp
qed

subsection \<open>A skipped recipient keeps the wait group from reaching zero\<close>

lemma skipped_slot:
  assumes "invs s" and "i < length (tasks s)"
    and "fst (rcpts s ! i) = OtherRecipient \<or> sub_err (snd (rcpts s ! i)) \<noteq> None"
  shows "pub (tasks s ! i) = PubNone \<and> col (tasks s ! i) = ColNone"
proof -
  from assms(1,2) have ok: "ops_ok (recording (pc s) i) (tasks s ! i) (ops i (trace s))"
    and eq: "(rcp (tasks s ! i), env (tasks s ! i)) = rcpts s ! i"
    by (simp_all add: invs_def inv_ops_def)
  from eq [symmetric] assms(3) have
    "rcp (tasks s ! i) = OtherRecipient \<or> sub_err (env (tasks s ! i)) \<noteq> None"
    by simp
  with ok have p: "pub (tasks s ! i) = PubNone"
    by (cases "rcp (tasks s ! i)") (auto simp: ops_ok_def split: if_splits)
  from assms(1,2) have "task_inv (tasks s ! i)" by (simp add: invs_def inv_def)
  with p show ?thesis by (simp add: task_inv_def)
qed

lemma blocked_at_wait:
  assumes "invs s" and "pc s = AtWait" and "i < length (rcpts s)"
    and "fst (rcpts s ! i) = OtherRecipient \<or> sub_err (snd (rcpts s ! i)) \<noteq> None"
  shows "0 < wg s"
proof -
  from assms(1) have iv: "inv s" by (simp add: invs_def)
  have st: "started s" using iv assms(2) inv_pc_started by blast
  with iv assms(2,3) have l: "i < length (tasks s)" by (simp add: inv_def)
  from skipped_slot [OF assms(1) l assms(4)] have "finished (tasks s ! i) < 2"
    by (simp add: finished_def)
  with iv l show ?thesis by (rule inv_wg_pos)
qed

lemma worker_pc:
  "pub_step i s = Some s' \<Longrightarrow> pc s' = pc s"
  "recv_step i s = Some s' \<Longrightarrow> pc s' = pc s"
  "timeout_step i s = Some s' \<Longrightarrow> pc s' = pc s"
  "col_step i s = Some s' \<Longrightarrow> pc s' = pc s"
  "deliver_step i s = Some s' \<Longrightarrow> pc s' = pc s"
  by (erule pub_stepE recv_stepE timeout_stepE col_stepE deliver_stepE; simp)+

lemma skip_blocks_step:
  assumes "invs s" and "packet s = Inr d" and "i < length (rcpts s)"
    and "fst (rcpts s ! i) = OtherRecipient \<or> sub_err (snd (rcpts s ! i)) \<noteq> None"
    and "\<not> has_returned (pc s)" and "step a s = Some s'"
  shows "\<not> has_returned (pc s')"
proof (cases a)
  case Main
  with assms(6) have m: "main_step s = Some s'" by (simp add: step_def split: if_splits)
  from m show ?thesis
  proof (cases rule: main_stepE)
    case (bad_packet e)
    with assms(2) show ?thesis by simp
  next
    case joined
    with blocked_at_wait [OF assms(1) joined(1) assms(3,4)] show ?thesis by simp
  qed (use assms(5) in simp_all)
next
  case (Pub j)
  with assms(5,6) show ?thesis by (auto simp: step_def worker_pc split: if_splits)
next
  case (Recv j)
  with assms(5,6) show ?thesis by (auto simp: step_def worker_pc split: if_splits)
next
  case (Timeout j)
  with assms(5,6) show ?thesis by (auto simp: step_def worker_pc split: if_splits)
next
  case (Col j)
  with assms(5,6) show ?thesis by (auto simp: step_def worker_pc split: if_splits)
next
  case (Deliver j)
  with assms(5,6) show ?thesis by (auto simp: step_def worker_pc split: if_splits)
qed

lemma skip_blocks_exec:
  assumes "invs s" and "packet s = Inr d" and "i < length (rcpts s)"
    and "fst (rcpts s ! i) = OtherRecipient \<or> sub_err (snd (rcpts s ! i)) \<noteq> None"
    and "\<not> has_returned (pc s)"
  shows "\<not> has_returned (pc (exec sched s))"
  using assms
proof (induction sched arbitrary: s)
  case Nil
  then show ?case by simp
next
  case (Cons a sched)
  show ?case
  proof (cases "step a s")
    case None
    with Cons show ?thesis by simp
  next
    case (Some s')
    from Cons.prems(1) Some have i': "invs s'" by (rule invs_step)
    from step_frame [OF Some] have f: "packet s' = packet s" "rcpts s' = rcpts s" by simp_all
    from skip_blocks_step [OF Cons.prems Some] have n: "\<not> has_returned (pc s')" .
    from Cons.IH [OF i'] Cons.prems(2,3,4) f n Some show ?thesis by simp
  qed
qed

lemma skip_blocks_run:
  assumes "i < length rs"
    and "fst (rs ! i) = OtherRecipient \<or> sub_err (snd (rs ! i)) \<noteq> None"
  shows "result (run sched (Inr d) rs) = None"
proof -
  have "\<not> has_returned (pc (exec sched (init (Inr d) rs)))"
    by (rule skip_blocks_exec [OF invs_init, where d = d and i = i])
       (use assms in \<open>simp_all add: init_def\<close>)
  then show ?thesis
    by (cases "pc (run sched (Inr d) rs)") (simp_all add: run_def result_def)
qed

text \<open>
  C2 fails on the code. With one recipient that is not an \<open>MqttRecipient\<close>, or
  one whose subscribe fails, the loop records the error and goes on without the
  two \<open>wg.Done()\<close> that \<open>wg.Add(2 * nb)\<close> counted for it: after the loop the main
  goroutine stands at \<open>wg.Wait()\<close> with the counter at two, the error sits in
  \<open>cherr\<close>, and in no interleaving does \<open>Send\<close> return.
\<close>

theorem Send_never_returns_after_skip:
  "\<forall>sched.
     result (run sched (Inr [1, 2]) [(OtherRecipient, quiet)]) = None \<and>
     result (run sched (Inr [1, 2]) [(MqttRecipient ''up'' ''down'', refusing)]) = None \<and>
     pc (run [Main, Main, Main, Main] (Inr [1, 2]) [(OtherRecipient, quiet)]) = AtWait \<and>
     wg (run [Main, Main, Main, Main] (Inr [1, 2]) [(OtherRecipient, quiet)]) = 2 \<and>
     buf (cherr (run [Main, Main, Main, Main] (Inr [1, 2]) [(OtherRecipient, quiet)])) =
       [Failure ErrInvalidStructure ''Unable to interpret recipient as mqttRecipient''] \<and>
     pc (run [Main, Main, Main, Main] (Inr [1, 2]) [(MqttRecipient ''up'' ''down'', refusing)]) = AtWait \<and>
     wg (run [Main, Main, Main, Main] (Inr [1, 2]) [(MqttRecipient ''up'' ''down'', refusing)]) = 2 \<and>
     buf (cherr (run [Main, Main, Main, Main] (Inr [1, 2]) [(MqttRecipient ''up'' ''down'', refusing)])) =
       [Failure ErrFailedOperation ''Unable to subscribe to down topic'']"
proof
  fix sched
  have a: "result (run sched (Inr [1, 2]) [(OtherRecipient, quiet)]) = None"
    by (rule skip_blocks_run [where i = 0]) simp_all
  have b: "result (run sched (Inr [1, 2]) [(MqttRecipient ''up'' ''down'', refusing)]) = None"
    by (rule skip_blocks_run [where i = 0]) (simp_all add: refusing_def)
  have c: "pc (run [Main, Main, Main, Main] (Inr [1, 2]) [(OtherRecipient, quiet)]) = AtWait"
    "wg (run [Main, Main, Main, Main] (Inr [1, 2]) [(OtherRecipient, quiet)]) = 2"
    "buf (cherr (run [Main, Main, Main, Main] (Inr [1, 2]) [(OtherRecipient, quiet)])) =
       [Failure ErrInvalidStructure ''Unable to interpret recipient as mqttRecipient'']"
    "pc (run [Main, Main, Main, Main] (Inr [1, 2]) [(MqttRecipient ''up'' ''down'', refusing)]) = AtWait"
    "wg (run [Main, Main, Main, Main] (Inr [1, 2]) [(MqttRecipient ''up'' ''down'', refusing)]) = 2"
    "buf (cherr (run [Main, Main, Main, Main] (Inr [1, 2]) [(MqttRecipient ''up'' ''down'', refusing)])) =
       [Failure ErrFailedOperation ''Unable to subscribe to down topic'']"
    by (simp_all add: send_eval)
  from a b c show "result (run sched (Inr [1, 2]) [(OtherRecipient, quiet)]) = None \<and>
     result (run sched (Inr [1, 2]) [(MqttRecipient ''up'' ''down'', refusing)]) = None \<and>
     pc (run [Main, Main, Main, Main] (Inr [1, 2]) [(OtherRecipient, quiet)]) = AtWait \<and>
     wg (run [Main, Main, Main, Main] (Inr [1, 2]) [(OtherRecipient, quiet)]) = 2 \<and>
     buf (cherr (run [Main, Main, Main, Main] (Inr [1, 2]) [(OtherRecipient, quiet)])) =
       [Failure ErrInvalidStructure ''Unable to interpret recipient as mqttRecipient''] \<and>
     pc (run [Main, Main, Main, Main] (Inr [1, 2]) [(MqttRecipient ''up'' ''down'', refusing)]) = AtWait \<and>
     wg (run [Main, Main, Main, Main] (Inr [1, 2]) [(MqttRecipient ''up'' ''down'', refusing)]) = 2 \<and>
     buf (cherr (run [Main, Main, Main, Main] (Inr [1, 2]) [(MqttRecipient ''up'' ''down'', refusing)])) =
       [Failure ErrFailedOperation ''Unable to subscribe to down topic'']"
    by simp
qed

subsection \<open>Per recipient\<close>

lemma errs_mem: "Op i (SendErr e) \<in> set tr \<Longrightarrow> e \<in> set (errs tr)"
  by (induction tr rule: errs.induct) auto

lemma slot_ops:
  assumes "invs s" and "i < length (tasks s)"
  shows "ops_ok (recording (pc s) i) (tasks s ! i) (ops i (trace s))"
    and "rcp (tasks s ! i) = fst (rcpts s ! i)" and "env (tasks s ! i) = snd (rcpts s ! i)"
proof -
  from assms show "ops_ok (recording (pc s) i) (tasks s ! i) (ops i (trace s))"
    by (simp add: invs_def inv_ops_def)
  from assms have "(rcp (tasks s ! i), env (tasks s ! i)) = rcpts s ! i"
    by (simp add: invs_def inv_ops_def)
  then show "rcp (tasks s ! i) = fst (rcpts s ! i)" "env (tasks s ! i) = snd (rcpts s ! i)"
    by (metis fst_conv, metis snd_conv)
qed

lemma no_slot_ops: "invs s \<Longrightarrow> \<not> i < length (tasks s) \<Longrightarrow> ops i (trace s) = []"
  by (simp add: invs_def inv_ops_def)

lemma passed_at_wait:
  assumes "invs s" and "pc s = AtWait" and "i < length (rcpts s)"
  shows "passed s i"
proof -
  from assms(1) have iv: "inv s" by (simp add: invs_def)
  have st: "started s" using iv assms(2) inv_pc_started by blast
  with iv assms(2,3) show ?thesis by (simp add: inv_def passed_def)
qed

text \<open>
  C3, as the code has it: for a recipient that is not an \<open>MqttRecipient\<close> the
  only operation ever made is the send of one error into \<open>cherr\<close>, made by the
  time the loop has passed that recipient (and so before \<open>wg.Wait()\<close>); no
  subscribe, publish or unsubscribe is made for it and no goroutine is started.
  The error is of kind \<open>ErrInvalidStructure\<close>, the kind \<open>Send\<close> returns when the
  packet fails to marshal.
\<close>

theorem other_recipient_skipped:
  assumes "s = run sched p rs" and "i < length rs" and "fst (rs ! i) = OtherRecipient"
  shows "ops i (trace s) =
           (if passed s i
            then [SendErr (Failure ErrInvalidStructure ''Unable to interpret recipient as mqttRecipient'')]
            else []) \<and>
         (pc s = AtWait \<longrightarrow> passed s i) \<and>
         (passed s i \<longrightarrow>
            Failure ErrInvalidStructure ''Unable to interpret recipient as mqttRecipient''
              \<in> set (buf (cherr s))) \<and>
         (i < length (tasks s) \<longrightarrow> pub (tasks s ! i) = PubNone \<and> col (tasks s ! i) = ColNone) \<and>
         (\<exists>s1. step Main (init (Inl c) rs) = Some s1 \<and>
               result s1 = Some (Inl (Failure ErrInvalidStructure c)))"
proof -
  have i: "invs s" unfolding assms(1) by (rule invs_run)
  have rs: "rcpts s = rs" by (simp add: assms(1))
  let ?e = "Failure ErrInvalidStructure ''Unable to interpret recipient as mqttRecipient''"
  have o: "ops i (trace s) = (if passed s i then [SendErr ?e] else [])"
  proof (cases "i < length (tasks s)")
    case True
    from slot_ops [OF i True] assms(3) rs show ?thesis
      by (simp add: ops_ok_def passed_def True errors_New_def)
  next
    case False
    with no_slot_ops [OF i False] show ?thesis by (simp add: passed_def)
  qed
  have w: "pc s = AtWait \<longrightarrow> passed s i"
    using passed_at_wait [OF i] assms(2) rs by simp
  have b: "passed s i \<longrightarrow> ?e \<in> set (buf (cherr s))"
  proof
    assume "passed s i"
    with o have "SendErr ?e \<in> set (ops i (trace s))" by simp
    then have "?e \<in> set (errs (trace s))" by (simp add: ops_mem errs_mem)
    with i show "?e \<in> set (buf (cherr s))" by (simp add: invs_def inv_trace_def)
  qed
  have sk: "i < length (tasks s) \<longrightarrow> pub (tasks s ! i) = PubNone \<and> col (tasks s ! i) = ColNone"
    using skipped_slot [OF i, of i] assms(3) rs by simp
  have m: "\<exists>s1. step Main (init (Inl c) rs) = Some s1 \<and>
               result s1 = Some (Inl (Failure ErrInvalidStructure c))"
    by (simp add: send_eval)
  from o w b sk m show ?thesis by blast
qed

theorem other_recipient_skipped_witness:
  "ops 0 (trace (run [Main, Main, Main, Main] (Inr [1, 2]) [(OtherRecipient, quiet)])) =
     [SendErr (Failure ErrInvalidStructure ''Unable to interpret recipient as mqttRecipient'')] \<and>
   Failure ErrInvalidStructure ''Unable to interpret recipient as mqttRecipient''
     \<in> set (buf (cherr (run [Main, Main, Main, Main] (Inr [1, 2]) [(OtherRecipient, quiet)])))"
proof -
  have w: "pc (run [Main, Main, Main, Main] (Inr [1, 2]) [(OtherRecipient, quiet)]) = AtWait"
    by (simp add: send_eval)
  from other_recipient_skipped [OF refl, of 0 "[(OtherRecipient, quiet)]"
      "[Main, Main, Main, Main]" "Inr [1, 2]"] w
  show ?thesis by simp
qed

text \<open>
  C3, as the claim states it, fails: the error recorded for a recipient that is not
  an \<open>MqttRecipient\<close> has the kind of the error returned for a packet that fails
  to marshal, not a kind of its own.
\<close>

theorem other_recipient_kind_counterexample:
  "buf (cherr (run [Main, Main, Main] (Inr [1, 2]) [(OtherRecipient, quiet)])) =
     [Failure ErrInvalidStructure ''Unable to interpret recipient as mqttRecipient''] \<and>
   result (run [Main] (Inl ''bad'') [(OtherRecipient, quiet)]) =
     Some (Inl (Failure ErrInvalidStructure ''bad'')) \<and>
   Nature (hd (buf (cherr (run [Main, Main, Main] (Inr [1, 2]) [(OtherRecipient, quiet)])))) =
     ErrInvalidStructure"
  by (simp add: send_eval)

lemma ops_split: "tr = pre @ Op i x # post \<Longrightarrow> ops i tr = ops i pre @ x # ops i post"
  by simp

lemma op_ok_pub:
  "op_ok (MqttRecipient up down) t d x \<Longrightarrow> is_pub x \<Longrightarrow>
   x = Publish up d (pub_err t = None) \<and> sub_err t = None"
  by (cases x) auto

text \<open>
  C5: for a recipient with topics \<open>up\<close> and \<open>down\<close>, in every state of every
  interleaving: a publish made for it is a publish of the marshalled packet on
  \<open>up\<close>, and the trace before it holds the subscribe on \<open>down\<close>, completed with
  success. At most one subscribe and one publish are made for it. When the
  subscribe fails no publish is ever made for it, no goroutine is started for
  it, and once the loop has passed it (and so before \<open>wg.Wait()\<close>) the
  operations made for it are the failed subscribe and then the send of an
  \<open>ErrFailedOperation\<close> error into \<open>cherr\<close>.
\<close>

theorem subscribe_before_publish:
  assumes "s = run sched p rs" and "i < length rs" and "rs ! i = (MqttRecipient up down, t)"
  shows "(\<forall>pre x post. trace s = pre @ Op i x # post \<and> is_pub x \<longrightarrow>
            x = Publish up (data s) (pub_err t = None) \<and> sub_err t = None \<and>
            Op i (Subscribe down True) \<in> set pre) \<and>
         cnt is_sub (ops i (trace s)) \<le> 1 \<and> cnt is_pub (ops i (trace s)) \<le> 1 \<and>
         (passed s i \<longrightarrow> hd (ops i (trace s)) = Subscribe down (sub_err t = None)) \<and>
         (pc s = AtWait \<longrightarrow> passed s i) \<and>
         (sub_err t \<noteq> None \<longrightarrow>
            cnt is_pub (ops i (trace s)) = 0 \<and>
            (i < length (tasks s) \<longrightarrow> pub (tasks s ! i) = PubNone \<and> col (tasks s ! i) = ColNone) \<and>
            ops i (trace s) =
              (if passed s i then
                 [Subscribe down False,
                  SendErr (Failure ErrFailedOperation ''Unable to subscribe to down topic'')]
               else if i < length (tasks s) then [Subscribe down False]
               else []) \<and>
            (passed s i \<longrightarrow>
               Failure ErrFailedOperation ''Unable to subscribe to down topic''
                 \<in> set (buf (cherr s))))"
proof -
  have i: "invs s" unfolding assms(1) by (rule invs_run)
  have rs: "rcpts s = rs" by (simp add: assms(1))
  let ?e = "Failure ErrFailedOperation ''Unable to subscribe to down topic''"
  have order: "x = Publish up (data s) (pub_err t = None) \<and> sub_err t = None \<and>
            Op i (Subscribe down True) \<in> set pre"
    if tr: "trace s = pre @ Op i x # post" and px: "is_pub x" for pre x post
  proof -
    from tr have m: "Op i x \<in> set (trace s)" by simp
    from trace_ev_ok [OF i m] rs assms(3) have "op_ok (MqttRecipient up down) t (data s) x"
      by simp
    from op_ok_pub [OF this px] have x: "x = Publish up (data s) (pub_err t = None)"
      and se: "sub_err t = None"
      by simp_all
    from tr have sp: "ops i (trace s) = ops i pre @ x # ops i post" by (rule ops_split)
    have l: "i < length (tasks s)"
    proof (rule ccontr)
      assume "\<not> i < length (tasks s)"
      from no_slot_ops [OF i this] sp show False by simp
    qed
    note so = slot_ops [OF i l]
    from so(2,3) rs assms(3) have re: "rcp (tasks s ! i) = MqttRecipient up down"
      "env (tasks s ! i) = t"
      by simp_all
    have np: "pub (tasks s ! i) \<noteq> PubNone"
    proof
      assume "pub (tasks s ! i) = PubNone"
      with so(1) re have "ops i (trace s) = [Subscribe down False] \<or>
          ops i (trace s) = [Subscribe down False, SendErr (skip_error (MqttRecipient up down))]"
        by (auto simp: ops_ok_def split: if_splits)
      with m px show False by (auto simp: ops_mem [symmetric])
    qed
    with so(1) re have h: "ops i (trace s) \<noteq> []" "hd (ops i (trace s)) = Subscribe down True"
      by (simp_all add: ops_ok_def)
    have "ops i pre \<noteq> []"
    proof
      assume "ops i pre = []"
      with sp h(2) px show False by simp
    qed
    with sp h(2) have "hd (ops i pre) = Subscribe down True" by simp
    with \<open>ops i pre \<noteq> []\<close> have "Subscribe down True \<in> set (ops i pre)"
      by (metis hd_in_set)
    then have "Op i (Subscribe down True) \<in> set pre" by (simp add: ops_mem)
    with x se show ?thesis by simp
  qed
  note c = ops_counts [OF i, of i]
  have w: "pc s = AtWait \<longrightarrow> passed s i"
    using passed_at_wait [OF i] assms(2) rs by simp
  have first: "passed s i \<longrightarrow> hd (ops i (trace s)) = Subscribe down (sub_err t = None)"
  proof
    assume ps: "passed s i"
    then have l: "i < length (tasks s)" and nr: "\<not> recording (pc s) i"
      by (simp_all add: passed_def)
    note so = slot_ops [OF i l]
    from so(2,3) rs assms(3) have re: "rcp (tasks s ! i) = MqttRecipient up down"
      "env (tasks s ! i) = t"
      by simp_all
    from so(1) re nr show "hd (ops i (trace s)) = Subscribe down (sub_err t = None)"
      by (auto simp: ops_ok_def split: if_splits)
  qed
  have failed: "cnt is_pub (ops i (trace s)) = 0 \<and>
            (i < length (tasks s) \<longrightarrow> pub (tasks s ! i) = PubNone \<and> col (tasks s ! i) = ColNone) \<and>
            ops i (trace s) =
              (if passed s i then [Subscribe down False, SendErr ?e]
               else if i < length (tasks s) then [Subscribe down False]
               else []) \<and>
            (passed s i \<longrightarrow> ?e \<in> set (buf (cherr s)))"
    if se: "sub_err t \<noteq> None"
  proof -
    have sk: "i < length (tasks s) \<longrightarrow> pub (tasks s ! i) = PubNone \<and> col (tasks s ! i) = ColNone"
      using skipped_slot [OF i, of i] assms(3) se rs by simp
    have o: "ops i (trace s) =
              (if passed s i then [Subscribe down False, SendErr ?e]
               else if i < length (tasks s) then [Subscribe down False]
               else [])"
    proof (cases "i < length (tasks s)")
      case True
      note so = slot_ops [OF i True]
      from so(2,3) rs assms(3) have re: "rcp (tasks s ! i) = MqttRecipient up down"
        "env (tasks s ! i) = t"
        by simp_all
      from so(1) re sk True show ?thesis
        by (simp add: ops_ok_def passed_def errors_New_def)
    next
      case False
      with no_slot_ops [OF i False] show ?thesis by (simp add: passed_def)
    qed
    then have n: "cnt is_pub (ops i (trace s)) = 0" by simp
    have b: "passed s i \<longrightarrow> ?e \<in> set (buf (cherr s))"
    proof
      assume "passed s i"
      with o have "SendErr ?e \<in> set (ops i (trace s))" by simp
      then have "?e \<in> set (errs (trace s))" by (simp add: ops_mem errs_mem)
      with i show "?e \<in> set (buf (cherr s))" by (simp add: invs_def inv_trace_def)
    qed
    from n sk o b show ?thesis by blast
  qed
  from order c w first failed show ?thesis by blast
qed

theorem subscribe_before_publish_witness:
  "trace (run [Main, Main, Pub 0] (Inr [1, 2]) [(MqttRecipient ''up'' ''down'', quiet)]) =
     [MarshalBinary, Op 0 (Subscribe ''down'' True), Op 0 (Publish ''up'' [1, 2] True)] \<and>
   Op 0 (Subscribe ''down'' True) \<in> set [MarshalBinary, Op 0 (Subscribe ''down'' True)] \<and>
   ops 0 (trace (run [Main, Main, Main, Main] (Inr [1, 2]) [(MqttRecipient ''up'' ''down'', refusing)])) =
     [Subscribe ''down'' False, SendErr (Failure ErrFailedOperation ''Unable to subscribe to down topic'')]"
proof -
  let ?s = "run [Main, Main, Pub 0] (Inr [1, 2]) [(MqttRecipient ''up'' ''down'', quiet)]"
  let ?f = "run [Main, Main, Main, Main] (Inr [1, 2]) [(MqttRecipient ''up'' ''down'', refusing)]"
  have t: "trace ?s = [MarshalBinary, Op 0 (Subscribe ''down'' True)] @
                      Op 0 (Publish ''up'' [1, 2] True) # []"
    by (simp add: send_eval)
  from subscribe_before_publish [OF refl, of 0 "[(MqttRecipient ''up'' ''down'', quiet)]"
      "''up''" "''down''" quiet "[Main, Main, Pub 0]" "Inr [1, 2]"] t
  have a: "Op 0 (Subscribe ''down'' True) \<in> set [MarshalBinary, Op 0 (Subscribe ''down'' True)]"
    by (metis is_pub.simps(1) length_Cons nth_Cons_0 zero_less_Suc)
  have w: "pc ?f = AtWait" by (simp add: send_eval)
  from subscribe_before_publish [OF refl, of 0 "[(MqttRecipient ''up'' ''down'', refusing)]"
      "''up''" "''down''" refusing "[Main, Main, Main, Main]" "Inr [1, 2]"] w
  have b: "ops 0 (trace ?f) =
     [Subscribe ''down'' False, SendErr (Failure ErrFailedOperation ''Unable to subscribe to down topic'')]"
    by (simp add: refusing_def)
  from t a b show ?thesis by simp
qed

subsection \<open>The collector always gets to its unsubscribe\<close>

lemma exec_one: "exec [a] s = (case step a s of None \<Rightarrow> s | Some s' \<Rightarrow> s')"
  by simp

lemma invs_np: "invs s \<Longrightarrow> \<not> panicked s"
  by (simp add: invs_def inv_def)

lemma timeout_moves:
  assumes "invs s" and "i < length (tasks s)"
  shows "exec [Timeout i] s =
           (if col (tasks s ! i) = ColSelect
            then s\<lparr>tasks := (tasks s)[i := (tasks s ! i)\<lparr>col := ColCleanup\<rparr>]\<rparr>
            else s)"
  using assms invs_np [OF assms(1)]
  by (cases "col (tasks s ! i)") (simp_all add: step_def timeout_step_def Let_def)

lemma recv_moves:
  assumes "invs s" and "i < length (tasks s)" and "col (tasks s ! i) = ColSelect"
    and "sendq (chdown (tasks s ! i)) = m # ms"
  shows "exec [Recv i] s =
           s\<lparr>tasks := (tasks s)[i := (tasks s ! i)\<lparr>col := ColForward m,
                chdown := (chdown (tasks s ! i))\<lparr>sendq := ms\<rparr>\<rparr>]\<rparr>"
proof -
  from assms(1,2) have "task_wf (tasks s ! i)" by (simp add: invs_def inv_wf_def)
  then have "buf (chdown (tasks s ! i)) = []" by (simp add: task_wf_def)
  with assms(4) have "chan_recv (chdown (tasks s ! i)) =
      Received m ((chdown (tasks s ! i))\<lparr>sendq := ms\<rparr>)"
    by (simp add: chan_recv_def)
  with assms(2,3) invs_np [OF assms(1)] show ?thesis
    by (simp add: step_def recv_step_def Let_def)
qed

lemma forward_moves:
  assumes "invs s" and "i < length (tasks s)" and "col (tasks s ! i) = ColForward m"
  shows "exec [Col i] s =
           s\<lparr>chresp := (chresp s)\<lparr>buf := buf (chresp s) @ [m]\<rparr>,
             trace := trace s @ [Op i (SendResp m)],
             tasks := (tasks s)[i := (tasks s ! i)\<lparr>col := ColCleanup\<rparr>]\<rparr>"
proof -
  from assms(1) have iv: "inv s" by (simp add: invs_def)
  have "chan_send (chresp s) m = Sent ((chresp s)\<lparr>buf := buf (chresp s) @ [m]\<rparr>)"
    by (rule resp_room [OF iv assms(2)]) (simp add: assms(3))
  with assms(2,3) invs_np [OF assms(1)] show ?thesis
    by (simp add: step_def col_step_def Let_def)
qed

lemma cleanup_moves:
  assumes "invs s" and "i < length (tasks s)" and "col (tasks s ! i) = ColCleanup"
    and "rcpts s ! i = (r, t)"
  shows "r \<noteq> OtherRecipient \<and> sub_err t = None \<and>
         col (tasks (exec [Col i] s) ! i) = ColDone \<and>
         length (tasks (exec [Col i] s)) = length (tasks s) \<and>
         trace (exec [Col i] s) = trace s @ [Op i (Unsubscribe (TopicDown r) (unsub_err t = None))]"
proof -
  from assms(1) have iv: "inv s" and io: "inv_ops s" by (simp_all add: invs_def)
  have sp: "pub (tasks s ! i) \<noteq> PubNone"
    using col_spawned [OF iv assms(2)] assms(3) by simp
  from spawned_facts [OF iv io assms(2) sp] obtain up down where
    f: "rcp (tasks s ! i) = MqttRecipient up down"
       "rcpts s ! i = (MqttRecipient up down, env (tasks s ! i))"
       "sub_err (env (tasks s ! i)) = None"
    by blast
  with assms(4) have r: "r = MqttRecipient up down" "env (tasks s ! i) = t" by simp_all
  from assms(2,3) f(1) r invs_np [OF assms(1)] f(3) show ?thesis
    by (cases "unsub_err t") (simp_all add: step_def col_step_def Let_def)
qed

lemma col_stays:
  assumes "invs s" and "i < length (tasks s)"
    and "col (tasks s ! i) = ColDone \<or> col (tasks s ! i) = ColSelect"
  shows "exec [Col i] s = s"
  using assms by (auto simp: step_def col_step_def Let_def)

lemma exec_Cons2: "exec (a # b # bs) s = exec (b # bs) (exec [a] s)"
  by simp

lemma timeout_leaves_select:
  assumes "invs s" and "i < length (tasks s)" and "col (tasks s ! i) \<noteq> ColNone"
  shows "invs (exec [Timeout i] s) \<and> length (tasks (exec [Timeout i] s)) = length (tasks s) \<and>
         rcpts (exec [Timeout i] s) = rcpts s \<and>
         col (tasks (exec [Timeout i] s) ! i) \<noteq> ColNone \<and>
         col (tasks (exec [Timeout i] s) ! i) \<noteq> ColSelect"
  using assms invs_exec [OF assms(1), of "[Timeout i]"]
  by (simp add: timeout_moves [OF assms(1,2)] del: exec.simps)

lemma col_advances:
  assumes "invs s" and "i < length (tasks s)"
    and "col (tasks s ! i) \<noteq> ColNone" and "col (tasks s ! i) \<noteq> ColSelect"
  shows "invs (exec [Col i] s) \<and> length (tasks (exec [Col i] s)) = length (tasks s) \<and>
         rcpts (exec [Col i] s) = rcpts s \<and>
         (col (tasks (exec [Col i] s) ! i) = ColCleanup \<or>
          col (tasks (exec [Col i] s) ! i) = ColDone)"
proof -
  have i': "invs (exec [Col i] s)" using assms(1) by (rule invs_exec)
  have r: "rcpts (exec [Col i] s) = rcpts s" using exec_frame [of "[Col i]" s] by blast
  obtain r t where rt: "rcpts s ! i = (r, t)" by (cases "rcpts s ! i")
  show ?thesis
  proof (cases "col (tasks s ! i)")
    case (ColForward m)
    from forward_moves [OF assms(1,2) ColForward] assms(2) i' r show ?thesis
      by (simp del: exec.simps)
  next
    case ColCleanup
    from cleanup_moves [OF assms(1,2) ColCleanup rt] i' r show ?thesis by blast
  next
    case ColDone
    with col_stays [OF assms(1,2)] assms(1) show ?thesis by (simp del: exec.simps)
  qed (use assms(3,4) in simp_all)
qed

lemma col_finishes:
  assumes "invs s" and "i < length (tasks s)"
    and "col (tasks s ! i) = ColCleanup \<or> col (tasks s ! i) = ColDone"
  shows "invs (exec [Col i] s) \<and> length (tasks (exec [Col i] s)) = length (tasks s) \<and>
         col (tasks (exec [Col i] s) ! i) = ColDone"
proof -
  have i': "invs (exec [Col i] s)" using assms(1) by (rule invs_exec)
  obtain r t where rt: "rcpts s ! i = (r, t)" by (cases "rcpts s ! i")
  from assms(3) show ?thesis
  proof
    assume c: "col (tasks s ! i) = ColCleanup"
    from cleanup_moves [OF assms(1,2) c rt] i' show ?thesis by blast
  next
    assume c: "col (tasks s ! i) = ColDone"
    with col_stays [OF assms(1,2)] assms(1) show ?thesis by (simp del: exec.simps)
  qed
qed

lemma collector_finishes:
  assumes "invs s" and "i < length (tasks s)" and "col (tasks s ! i) \<noteq> ColNone"
  shows "col (tasks (exec [Timeout i, Col i, Col i] s) ! i) = ColDone \<and>
         length (tasks (exec [Timeout i, Col i, Col i] s)) = length (tasks s)"
proof -
  let ?s1 = "exec [Timeout i] s"
  let ?s2 = "exec [Col i] ?s1"
  let ?s3 = "exec [Col i] ?s2"
  note a = timeout_leaves_select [OF assms]
  then have a': "invs ?s1" "i < length (tasks ?s1)" "col (tasks ?s1 ! i) \<noteq> ColNone"
    "col (tasks ?s1 ! i) \<noteq> ColSelect"
    using assms(2) by simp_all
  note b = col_advances [OF a']
  then have b': "invs ?s2" "i < length (tasks ?s2)"
    "col (tasks ?s2 ! i) = ColCleanup \<or> col (tasks ?s2 ! i) = ColDone"
    using a'(2) by simp_all
  note c = col_finishes [OF b']
  have "exec [Timeout i, Col i, Col i] s = ?s3" by (simp only: exec_Cons2)
  with a b c show ?thesis by simp
qed

lemma timeout_path:
  assumes "invs s" and "i < length (tasks s)" and "col (tasks s ! i) = ColSelect"
    and "rcpts s ! i = (r, t)"
  shows "trace (exec [Timeout i, Col i] s) =
           trace s @ [Op i (Unsubscribe (TopicDown r) (unsub_err t = None))] \<and>
         col (tasks (exec [Timeout i, Col i] s) ! i) = ColDone"
proof -
  let ?s1 = "s\<lparr>tasks := (tasks s)[i := (tasks s ! i)\<lparr>col := ColCleanup\<rparr>]\<rparr>"
  have s1: "exec [Timeout i] s = ?s1" using timeout_moves [OF assms(1,2)] assms(3) by simp
  have i1: "invs ?s1" using invs_exec [OF assms(1), of "[Timeout i]"] s1 by simp
  have c: "i < length (tasks ?s1)" "col (tasks ?s1 ! i) = ColCleanup" "rcpts ?s1 ! i = (r, t)"
    using assms(2,4) by simp_all
  from cleanup_moves [OF i1 c] have
    "trace (exec [Col i] ?s1) = trace s @ [Op i (Unsubscribe (TopicDown r) (unsub_err t = None))]"
    "col (tasks (exec [Col i] ?s1) ! i) = ColDone"
    by simp_all
  moreover have "exec [Timeout i, Col i] s = exec [Col i] ?s1"
    using s1 by (simp only: exec_Cons2)
  ultimately show ?thesis by simp
qed

lemma message_path:
  assumes "invs s" and "i < length (tasks s)" and "col (tasks s ! i) = ColSelect"
    and "rcpts s ! i = (r, t)" and "sendq (chdown (tasks s ! i)) = m # ms"
  shows "trace (exec [Recv i, Col i, Col i] s) =
           trace s @ [Op i (SendResp m), Op i (Unsubscribe (TopicDown r) (unsub_err t = None))] \<and>
         col (tasks (exec [Recv i, Col i, Col i] s) ! i) = ColDone"
proof -
  let ?s1 = "s\<lparr>tasks := (tasks s)[i := (tasks s ! i)\<lparr>col := ColForward m,
                chdown := (chdown (tasks s ! i))\<lparr>sendq := ms\<rparr>\<rparr>]\<rparr>"
  have s1: "exec [Recv i] s = ?s1" by (rule recv_moves [OF assms(1,2,3,5)])
  have i1: "invs ?s1" using invs_exec [OF assms(1), of "[Recv i]"] s1 by simp
  have c1: "i < length (tasks ?s1)" "col (tasks ?s1 ! i) = ColForward m"
    using assms(2) by simp_all
  let ?s2 = "exec [Col i] ?s1"
  note f = forward_moves [OF i1 c1]
  have i2: "invs ?s2" using i1 by (rule invs_exec)
  have c2: "i < length (tasks ?s2)" "col (tasks ?s2 ! i) = ColCleanup" "rcpts ?s2 ! i = (r, t)"
    "trace ?s2 = trace s @ [Op i (SendResp m)]"
    using assms(2,4) by (simp_all add: f del: exec.simps)
  from cleanup_moves [OF i2 c2(1,2,3)] c2(4) have
    "trace (exec [Col i] ?s2) =
       trace s @ [Op i (SendResp m), Op i (Unsubscribe (TopicDown r) (unsub_err t = None))]"
    "col (tasks (exec [Col i] ?s2) ! i) = ColDone"
    by simp_all
  moreover have "exec [Recv i, Col i, Col i] s = exec [Col i] ?s2"
    using s1 by (simp only: exec_Cons2)
  ultimately show ?thesis by simp
qed

lemma op_ok_unsub:
  "op_ok r t d x \<Longrightarrow> is_unsub x \<Longrightarrow>
   r \<noteq> OtherRecipient \<and> x = Unsubscribe (TopicDown r) (unsub_err t = None) \<and> sub_err t = None"
  by (cases r; cases x) auto

lemma unsub_count:
  assumes "invs s"
  shows "cnt is_unsub (ops i (trace s)) =
           (if i < length (tasks s) \<and> col (tasks s ! i) = ColDone then 1 else 0)"
proof (cases "i < length (tasks s)")
  case False
  with no_slot_ops [OF assms False] show ?thesis by simp
next
  case True
  note so = slot_ops [OF assms True]
  from assms True have ti: "task_inv (tasks s ! i)" by (simp add: invs_def inv_def)
  show ?thesis
  proof (cases "pub (tasks s ! i) = PubNone")
    case True
    with ti have c: "col (tasks s ! i) = ColNone" by (simp add: task_inv_def)
    from so(1) True have "cnt is_unsub (ops i (trace s)) = 0"
      by (cases "rcp (tasks s ! i)") (auto simp: ops_ok_def split: if_splits)
    with c show ?thesis by simp
  next
    case False
    with so(1) obtain up down where r: "rcp (tasks s ! i) = MqttRecipient up down"
      by (cases "rcp (tasks s ! i)") (auto simp: ops_ok_def)
    with so(1) False obtain rest where os: "ops i (trace s) = Subscribe down True # rest"
      by (cases "ops i (trace s)") (simp_all add: ops_ok_def)
    with so(1) r False \<open>i < length (tasks s)\<close> show ?thesis
      by (simp add: ops_ok_def)
  qed
qed

lemma collector_iff_subscribed:
  assumes "invs s" and "i < length (tasks s)" and "rcpts s ! i = (r, t)"
  shows "col (tasks s ! i) = ColNone \<longleftrightarrow> r = OtherRecipient \<or> sub_err t \<noteq> None"
proof
  assume "r = OtherRecipient \<or> sub_err t \<noteq> None"
  with skipped_slot [OF assms(1,2)] assms(3) show "col (tasks s ! i) = ColNone" by simp
next
  assume c: "col (tasks s ! i) = ColNone"
  from assms(1,2) have "task_inv (tasks s ! i)" by (simp add: invs_def inv_def)
  with c have p: "pub (tasks s ! i) = PubNone" by (simp add: task_inv_def)
  note so = slot_ops [OF assms(1,2)]
  from so(2,3) assms(3) have "rcp (tasks s ! i) = r" "env (tasks s ! i) = t" by simp_all
  with so(1) p show "r = OtherRecipient \<or> sub_err t \<noteq> None"
    by (cases r) (auto simp: ops_ok_def)
qed

text \<open>
  C6, as the code has it: the unsubscribe is the deferred call of the collector, and
  a collector exists exactly for the recipients whose subscribe succeeded. In
  every state of every interleaving, for the recipient \<open>i\<close> with transport \<open>t\<close>:
  an unsubscribe made for it is on its downlink topic, and its subscribe had
  succeeded; the number of unsubscribes made for it is one if its collector has
  returned and zero otherwise; its slot has no collector exactly when it is not an
  \<open>MqttRecipient\<close> or its subscribe failed. A collector always gets there,
  whatever the publisher does: from any state, its timeout and its own steps
  bring it to its end, with exactly one unsubscribe made. From the \<open>select\<close> the
  timeout path makes the unsubscribe next, and the message path forwards the
  waiting payload and then makes the unsubscribe.
\<close>

theorem unsubscribe_once_per_collector:
  assumes "s = run sched p rs" and "i < length rs" and "rs ! i = (r, t)"
  shows "(\<forall>x. Op i x \<in> set (trace s) \<and> is_unsub x \<longrightarrow>
            r \<noteq> OtherRecipient \<and> sub_err t = None \<and>
            x = Unsubscribe (TopicDown r) (unsub_err t = None)) \<and>
         cnt is_unsub (ops i (trace s)) =
           (if i < length (tasks s) \<and> col (tasks s ! i) = ColDone then 1 else 0) \<and>
         (i < length (tasks s) \<longrightarrow>
            (col (tasks s ! i) = ColNone \<longleftrightarrow> r = OtherRecipient \<or> sub_err t \<noteq> None)) \<and>
         (pc s = AtWait \<longrightarrow> i < length (tasks s)) \<and>
         (i < length (tasks s) \<and> col (tasks s ! i) \<noteq> ColNone \<longrightarrow>
            col (tasks (exec [Timeout i, Col i, Col i] s) ! i) = ColDone \<and>
            cnt is_unsub (ops i (trace (exec [Timeout i, Col i, Col i] s))) = 1) \<and>
         (i < length (tasks s) \<and> col (tasks s ! i) = ColSelect \<longrightarrow>
            trace (exec [Timeout i, Col i] s) =
              trace s @ [Op i (Unsubscribe (TopicDown r) (unsub_err t = None))]) \<and>
         (\<forall>m ms. i < length (tasks s) \<and> col (tasks s ! i) = ColSelect \<and>
                 sendq (chdown (tasks s ! i)) = m # ms \<longrightarrow>
            trace (exec [Recv i, Col i, Col i] s) =
              trace s @ [Op i (SendResp m),
                         Op i (Unsubscribe (TopicDown r) (unsub_err t = None))])"
proof -
  have i: "invs s" unfolding assms(1) by (rule invs_run)
  have rs: "rcpts s = rs" by (simp add: assms(1))
  then have rt: "rcpts s ! i = (r, t)" by (simp add: assms(3))
  have form: "\<forall>x. Op i x \<in> set (trace s) \<and> is_unsub x \<longrightarrow>
            r \<noteq> OtherRecipient \<and> sub_err t = None \<and>
            x = Unsubscribe (TopicDown r) (unsub_err t = None)"
    using trace_ev_ok [OF i] op_ok_unsub [of r t "data s"] rt by fastforce
  note n = unsub_count [OF i, of i]
  have c: "i < length (tasks s) \<longrightarrow>
            (col (tasks s ! i) = ColNone \<longleftrightarrow> r = OtherRecipient \<or> sub_err t \<noteq> None)"
    using collector_iff_subscribed [OF i _ rt] by blast
  have w: "pc s = AtWait \<longrightarrow> i < length (tasks s)"
    using passed_at_wait [OF i, of i] assms(2) rs by (simp add: passed_def)
  have fin: "col (tasks (exec [Timeout i, Col i, Col i] s) ! i) = ColDone \<and>
            cnt is_unsub (ops i (trace (exec [Timeout i, Col i, Col i] s))) = 1"
    if l: "i < length (tasks s)" and sp: "col (tasks s ! i) \<noteq> ColNone"
  proof -
    let ?s' = "exec [Timeout i, Col i, Col i] s"
    note f = collector_finishes [OF i l sp]
    have "invs ?s'" using i by (rule invs_exec)
    from unsub_count [OF this, of i] f l show ?thesis by simp
  qed
  have tp: "i < length (tasks s) \<and> col (tasks s ! i) = ColSelect \<longrightarrow>
            trace (exec [Timeout i, Col i] s) =
              trace s @ [Op i (Unsubscribe (TopicDown r) (unsub_err t = None))]"
    using timeout_path [OF i _ _ rt] by blast
  have mp: "\<forall>m ms. i < length (tasks s) \<and> col (tasks s ! i) = ColSelect \<and>
                 sendq (chdown (tasks s ! i)) = m # ms \<longrightarrow>
            trace (exec [Recv i, Col i, Col i] s) =
              trace s @ [Op i (SendResp m),
                         Op i (Unsubscribe (TopicDown r) (unsub_err t = None))]"
    using message_path [OF i _ _ rt] by blast
  from form n c w fin tp mp show ?thesis by blast
qed

theorem unsubscribe_once_per_collector_witness:
  "cnt is_unsub (ops 0 (trace (run [Main, Main, Main, Pub 0, Timeout 0, Col 0] (Inr [1, 2])
       [(MqttRecipient ''up'' ''down'', quiet)]))) = 1 \<and>
   trace (run [Main, Main, Main, Pub 0, Timeout 0, Col 0] (Inr [1, 2])
       [(MqttRecipient ''up'' ''down'', quiet)]) =
     [MarshalBinary, Op 0 (Subscribe ''down'' True), Op 0 (Publish ''up'' [1, 2] True),
      Op 0 (Unsubscribe ''down'' True)] \<and>
   cnt is_unsub (ops 0 (trace (run [Main, Main, Main, Main] (Inr [1, 2])
       [(MqttRecipient ''up'' ''down'', refusing)]))) = 0"
proof -
  let ?a = "run [Main, Main, Main, Pub 0] (Inr [1, 2]) [(MqttRecipient ''up'' ''down'', quiet)]"
  let ?b = "run [Main, Main, Main, Pub 0, Timeout 0, Col 0] (Inr [1, 2])
       [(MqttRecipient ''up'' ''down'', quiet)]"
  let ?f = "run [Main, Main, Main, Main] (Inr [1, 2]) [(MqttRecipient ''up'' ''down'', refusing)]"
  have a: "length (tasks ?a) = 1" "col (tasks ?a ! 0) = ColSelect"
    "trace ?a = [MarshalBinary, Op 0 (Subscribe ''down'' True), Op 0 (Publish ''up'' [1, 2] True)]"
    by (simp_all add: send_eval)
  have ab: "?b = exec [Timeout 0, Col 0] ?a"
    using run_append [of "[Main, Main, Main, Pub 0]" "[Timeout 0, Col 0]"] by simp
  from unsubscribe_once_per_collector [OF refl, of 0 "[(MqttRecipient ''up'' ''down'', quiet)]"
      "MqttRecipient ''up'' ''down''" quiet "[Main, Main, Main, Pub 0]" "Inr [1, 2]"] a(1,2)
  have "trace (exec [Timeout 0, Col 0] ?a) =
      trace ?a @ [Op 0 (Unsubscribe ''down'' (unsub_err quiet = None))]"
    by simp
  with ab a(3) have t: "trace ?b =
     [MarshalBinary, Op 0 (Subscribe ''down'' True), Op 0 (Publish ''up'' [1, 2] True),
      Op 0 (Unsubscribe ''down'' True)]"
    by (simp add: quiet_def)
  have f: "col (tasks ?f ! 0) = ColNone" by (simp add: send_eval)
  from unsubscribe_once_per_collector [OF refl, of 0 "[(MqttRecipient ''up'' ''down'', refusing)]"
      "MqttRecipient ''up'' ''down''" refusing "[Main, Main, Main, Main]" "Inr [1, 2]"] f
  have z: "cnt is_unsub (ops 0 (trace ?f)) = 0" by simp
  from t z show ?thesis by simp
qed

text \<open>
  C6, as the claim states it, fails: a recipient whose subscribe fails has an error
  outcome, and at \<open>wg.Wait()\<close>, when nothing more can be done for it, no
  unsubscribe was made for it.
\<close>

theorem no_unsubscribe_counterexample:
  "pc (run [Main, Main, Main, Main] (Inr [1, 2]) [(MqttRecipient ''up'' ''down'', refusing)]) = AtWait \<and>
   trace (run [Main, Main, Main, Main] (Inr [1, 2]) [(MqttRecipient ''up'' ''down'', refusing)]) =
     [MarshalBinary, Op 0 (Subscribe ''down'' False),
      Op 0 (SendErr (Failure ErrFailedOperation ''Unable to subscribe to down topic''))] \<and>
   cnt is_unsub (ops 0 (trace (run [Main, Main, Main, Main, Pub 0, Recv 0, Timeout 0, Col 0, Col 0, Deliver 0, Main]
       (Inr [1, 2]) [(MqttRecipient ''up'' ''down'', refusing)]))) = 0"
  by (simp add: send_eval cnt_def)

end
